theory Spec2Isabelle
  imports Complex_Main
begin

section \<open>Values, failures and the shape/index mapper\<close>

text \<open>
  A matrix cell is a Go \<^verbatim>\<open>float64\<close>. The code of \<^verbatim>\<open>matrix.go\<close> only stores cell
  values, compares them with zero and produces the not-a-number sentinel, so a value is
  the rational a finite float denotes, an infinity or NaN. The two signed zeros are one
  value here: Go's \<^verbatim>\<open>==\<close> does not tell them apart.
\<close>

datatype float64 = Finite rat | PosInf | NegInf | NaN

text \<open>
  A Go panic is a value: every function that can panic returns \<open>panic + 'a\<close>, with
  \<open>Inl\<close> the panic.
\<close>

datatype panic =
    PanicDensity      \<comment> \<open>SparseRand / SparseRandN: density outside [0, 1)\<close>
  | PanicDiagCount    \<comment> \<open>SparseDiag: more diagonal values than the matrix has\<close>
  | PanicMakeLen      \<comment> \<open>the runtime's \<^verbatim>\<open>makeslice: len out of range\<close>\<close>
  | PanicIndex        \<comment> \<open>an index or coordinate out of range\<close>
  | PanicShape        \<comment> \<open>the backend's shape mismatch\<close>
  | PanicOffDiagonal  \<comment> \<open>a nonzero off-diagonal cell in a conversion to diagonal format\<close>
  | PanicIntn         \<comment> \<open>\<^verbatim>\<open>rand.Intn\<close> called with a non-positive bound\<close>
  | PanicBackend      \<comment> \<open>any other panic raised inside the backend\<close>

text \<open>A shape is valid when no extent is negative (the data model of the spec).\<close>

definition valid_shape :: "int list \<Rightarrow> bool" where
  "valid_shape shape = list_all (\<lambda>d. 0 \<le> d) shape"

text \<open>A coordinate has one component per dimension, each within its extent.\<close>

definition valid_coord :: "int list \<Rightarrow> int list \<Rightarrow> bool" where
  "valid_coord shape coord =
     (length coord = length shape \<and> list_all2 (\<lambda>c d. 0 \<le> c \<and> c < d) coord shape)"

text \<open>
  Modelled from the spec: \<^verbatim>\<open>flatToNd\<close> is called by \<^verbatim>\<open>matrix.go\<close> and defined in a file
  that is not among the sources. The spec: the precondition is
  \<open>0 \<le> flatIndex < product(shape)\<close>, its violation fails fatally; the coordinate's
  last component is \<open>flatIndex mod shape[last]\<close>, and successive components divide by
  successive trailing extents. \<open>decompose\<close> takes the extents last one first and gives
  the components last one first.
\<close>

fun decompose :: "int list \<Rightarrow> int \<Rightarrow> int list" where
  "decompose [] flat = []"
| "decompose (d # ds) flat = (flat mod d) # decompose ds (flat div d)"

definition flatToNd :: "int list \<Rightarrow> int \<Rightarrow> panic + int list" where
  "flatToNd shape flat =
     (if 0 \<le> flat \<and> flat < prod_list shape
      then Inr (rev (decompose (rev shape) flat))
      else Inl PanicIndex)"

text \<open>
  Modelled from the spec: the coordinate-to-flat mapping, which the spec requires to
  exist and which is defined in a file that is not among the sources. The spec: row-major
  order, the last dimension varies fastest, the element at coordinate \<open>(i, j)\<close> lives at
  flat index \<open>i * cols + j\<close>. \<open>compose\<close> takes extents and components last one first.
\<close>

fun compose :: "int list \<Rightarrow> int list \<Rightarrow> int" where
  "compose (d # ds) (c # cs) = c + d * compose ds cs"
| "compose _ _ = 0"

definition ndToFlat :: "int list \<Rightarrow> int list \<Rightarrow> panic + int" where
  "ndToFlat shape coord =
     (if valid_coord shape coord
      then Inr (compose (rev shape) (rev coord))
      else Inl PanicIndex)"

subsection \<open>The two mappings are inverse to each other\<close>

lemma prod_list_pos_extents:
  "list_all (\<lambda>d. 0 \<le> d) ds \<Longrightarrow> 0 < prod_list ds \<Longrightarrow> list_all (\<lambda>d. (0::int) < d) ds"
proof (induction ds)
  case Nil
  show ?case by simp
next
  case (Cons d ds)
  from Cons.prems have d0: "0 \<le> d" and rest: "list_all (\<lambda>d. 0 \<le> d) ds" by simp_all
  from Cons.prems have p: "0 < d * prod_list ds" by simp
  have "d \<noteq> 0" using p by auto
  with d0 have dpos: "0 < d" by simp
  with p have "0 < prod_list ds" by (simp add: zero_less_mult_iff)
  with Cons.IH rest dpos show ?case by simp
qed

lemma compose_decompose:
  "list_all (\<lambda>d. 0 < d) ds \<Longrightarrow> 0 \<le> flat \<Longrightarrow> flat < prod_list ds \<Longrightarrow>
   compose ds (decompose ds flat) = flat"
proof (induction ds arbitrary: flat)
  case Nil
  then show ?case by simp
next
  case (Cons d ds)
  from Cons.prems have dpos: "0 < d" and rest: "list_all (\<lambda>d. 0 < d) ds" by simp_all
  have lo: "0 \<le> flat div d" using Cons.prems(2) dpos by (simp add: pos_imp_zdiv_nonneg_iff)
  have "flat = d * (flat div d) + flat mod d" by simp
  moreover have "0 \<le> flat mod d" using dpos by simp
  ultimately have "d * (flat div d) \<le> flat" by linarith
  also have "\<dots> < d * prod_list ds" using Cons.prems(3) by simp
  finally have hi: "flat div d < prod_list ds" using dpos by (simp add: mult_less_cancel_left_pos)
  have "compose ds (decompose ds (flat div d)) = flat div d"
    using Cons.IH [OF rest lo hi] .
  then show ?case by simp
qed

lemma decompose_valid:
  "list_all (\<lambda>d. 0 < d) ds \<Longrightarrow>
   length (decompose ds flat) = length ds \<and>
   list_all2 (\<lambda>c d. 0 \<le> c \<and> c < d) (decompose ds flat) ds"
  by (induction ds arbitrary: flat) simp_all

lemma decompose_compose:
  "length cs = length ds \<Longrightarrow> list_all2 (\<lambda>c d. 0 \<le> c \<and> c < d) cs ds \<Longrightarrow>
   decompose ds (compose ds cs) = cs"
proof (induction ds arbitrary: cs)
  case Nil
  then show ?case by simp
next
  case (Cons d ds)
  then obtain c cs' where cs: "cs = c # cs'" by (cases cs) auto
  from Cons.prems cs have c: "0 \<le> c" "c < d" and len: "length cs' = length ds"
    and all: "list_all2 (\<lambda>c d. 0 \<le> c \<and> c < d) cs' ds" by simp_all
  have m: "(c + d * compose ds cs') mod d = c" using c by simp
  have q: "(c + d * compose ds cs') div d = compose ds cs'" using c by simp
  show ?case using Cons.IH [OF len all] m q cs by simp
qed

lemma compose_bounds:
  "length cs = length ds \<Longrightarrow> list_all2 (\<lambda>c d. 0 \<le> c \<and> c < d) cs ds \<Longrightarrow>
   0 \<le> compose ds cs \<and> compose ds cs < prod_list ds"
proof (induction ds arbitrary: cs)
  case Nil
  then show ?case by simp
next
  case (Cons d ds)
  then obtain c cs' where cs: "cs = c # cs'" by (cases cs) auto
  from Cons.prems cs have c: "0 \<le> c" "c < d" and len: "length cs' = length ds"
    and all: "list_all2 (\<lambda>c d. 0 \<le> c \<and> c < d) cs' ds" by simp_all
  from Cons.IH [OF len all] have lo: "0 \<le> compose ds cs'"
    and hi: "compose ds cs' + 1 \<le> prod_list ds" by simp_all
  have dpos: "0 < d" using c by simp
  have "c + d * compose ds cs' < d + d * compose ds cs'" using c by simp
  also have "\<dots> = d * (compose ds cs' + 1)" by (simp add: algebra_simps)
  also have "\<dots> \<le> d * prod_list ds" using hi dpos by (simp add: mult_left_mono)
  finally have "c + d * compose ds cs' < d * prod_list ds" .
  moreover have "0 \<le> c + d * compose ds cs'" using c lo dpos by simp
  ultimately show ?case using cs by simp
qed

lemma flatToNd_ndToFlat:
  assumes "valid_shape shape" "0 \<le> i" "i < prod_list shape"
  shows "\<exists>coord. flatToNd shape i = Inr coord \<and> valid_coord shape coord \<and>
           ndToFlat shape coord = Inr i"
proof -
  let ?ds = "rev shape"
  have nn: "list_all (\<lambda>d. 0 \<le> d) ?ds" using assms(1) by (simp add: valid_shape_def list_all_iff)
  have p: "prod_list ?ds = prod_list shape" by (simp add: prod_list.rev)
  have pos: "list_all (\<lambda>d. 0 < d) ?ds"
    using prod_list_pos_extents [OF nn] assms(2,3) p by simp
  let ?coord = "rev (decompose ?ds i)"
  have f: "flatToNd shape i = Inr ?coord" using assms(2,3) by (simp add: flatToNd_def)
  from decompose_valid [OF pos, of i]
  have len: "length (decompose ?ds i) = length ?ds"
    and all: "list_all2 (\<lambda>c d. 0 \<le> c \<and> c < d) (decompose ?ds i) ?ds" by simp_all
  have "list_all2 (\<lambda>c d. 0 \<le> c \<and> c < d) (rev (decompose ?ds i)) (rev ?ds)"
    using all by (simp only: list_all2_rev)
  then have v: "valid_coord shape ?coord" using len by (simp add: valid_coord_def)
  have "compose ?ds (decompose ?ds i) = i"
    using compose_decompose [OF pos assms(2)] assms(3) p by simp
  then have "ndToFlat shape ?coord = Inr i" using v by (simp add: ndToFlat_def)
  with f v show ?thesis by blast
qed

lemma ndToFlat_flatToNd:
  assumes "valid_coord shape coord"
  shows "\<exists>i. ndToFlat shape coord = Inr i \<and> 0 \<le> i \<and> i < prod_list shape \<and>
           flatToNd shape i = Inr coord"
proof -
  let ?ds = "rev shape" and ?cs = "rev coord"
  have len: "length ?cs = length ?ds" using assms by (simp add: valid_coord_def)
  have "list_all2 (\<lambda>c d. 0 \<le> c \<and> c < d) coord shape" using assms by (simp add: valid_coord_def)
  then have all: "list_all2 (\<lambda>c d. 0 \<le> c \<and> c < d) ?cs ?ds" by (simp only: list_all2_rev)
  let ?i = "compose ?ds ?cs"
  have n: "ndToFlat shape coord = Inr ?i" using assms by (simp add: ndToFlat_def)
  from compose_bounds [OF len all] have b: "0 \<le> ?i" "?i < prod_list shape"
    by (simp_all add: prod_list.rev)
  have "decompose ?ds ?i = ?cs" using decompose_compose [OF len all] .
  then have "flatToNd shape ?i = Inr coord" using b by (simp add: flatToNd_def)
  with n b show ?thesis by blast
qed

text \<open>
  C4. For every valid shape and every flat index \<open>i\<close> in \<open>[0, product(shape))\<close>,
  \<open>flatToNd\<close> returns a coordinate and the coordinate-to-flat mapping takes it back to
  \<open>i\<close>; and for every coordinate within the shape the coordinate-to-flat mapping gives
  a flat index that \<open>flatToNd\<close> takes back to the coordinate. The two mappings are an
  inverse pair under row-major order.
\<close>

theorem flatToNd_inverse_pair:
  assumes "valid_shape shape"
  shows "(0 \<le> i \<and> i < prod_list shape \<longrightarrow>
            (\<exists>coord. flatToNd shape i = Inr coord \<and> ndToFlat shape coord = Inr i)) \<and>
         (valid_coord shape c \<longrightarrow>
            (\<exists>j. ndToFlat shape c = Inr j \<and> flatToNd shape j = Inr c))"
proof (intro conjI impI)
  assume "0 \<le> i \<and> i < prod_list shape"
  with flatToNd_ndToFlat [OF assms, of i]
  show "\<exists>coord. flatToNd shape i = Inr coord \<and> ndToFlat shape coord = Inr i" by blast
next
  assume "valid_coord shape c"
  from ndToFlat_flatToNd [OF this]
  show "\<exists>j. ndToFlat shape c = Inr j \<and> flatToNd shape j = Inr c" by blast
qed

theorem flatToNd_inverse_pair_witness:
  "valid_shape [2, 3] \<and> flatToNd [2, 3] 4 = Inr [1, 1] \<and> ndToFlat [2, 3] [1, 1] = Inr 4"
proof -
  have v: "valid_shape [2, 3]" by (simp add: valid_shape_def)
  have f: "flatToNd [2, 3] 4 = Inr [1, 1]" by (simp add: flatToNd_def)
  have c: "valid_coord [2, 3] [1, 1]" by (simp add: valid_coord_def)
  from flatToNd_inverse_pair [OF v, of 4 "[1, 1]"] f c
  have "ndToFlat [2, 3] [1, 1] = Inr 4" by simp
  with v f show ?thesis by simp
qed

section \<open>The three storage kinds\<close>

text \<open>
  \<^verbatim>\<open>matrix.go\<close> builds three concrete types, each with a \<^verbatim>\<open>shape\<close> field and its
  storage: \<^verbatim>\<open>denseF64Array{shape, array}\<close> (one row-major buffer),
  \<^verbatim>\<open>sparseCooF64Matrix{shape, values}\<close> (one map from column to value per row) and
  \<^verbatim>\<open>sparseDiagF64Matrix{shape, diag}\<close> (the main diagonal). The \<^verbatim>\<open>Matrix\<close> interface is
  their tagged union.
\<close>

record denseF64Array =
  dense_shape :: "int list"
  dense_array :: "float64 list"

record sparseCooF64Matrix =
  coo_shape :: "int list"
  coo_values :: "(int \<rightharpoonup> float64) list"

record sparseDiagF64Matrix =
  diag_shape :: "int list"
  diag_diag :: "float64 list"

datatype Matrix =
    DenseM denseF64Array
  | CooM sparseCooF64Matrix
  | DiagM sparseDiagF64Matrix

text \<open>\<^verbatim>\<open>make([]T, n)\<close>: a slice of \<open>n\<close> zero values; the runtime panics on a negative length.\<close>

definition make_slice :: "'a \<Rightarrow> int \<Rightarrow> panic + 'a list" where
  "make_slice z n = (if n < 0 then Inl PanicMakeLen else Inr (replicate (nat n) z))"

subsection \<open>SparseDiag: the sparse-diagonal constructor\<close>

text \<open>
  The loop \<^verbatim>\<open>for pos, v := range diag { array.diag[pos] = v }\<close>: a store past the end
  of the buffer is the runtime's index panic.
\<close>

fun diag_store :: "float64 list \<Rightarrow> nat \<Rightarrow> float64 list \<Rightarrow> panic + float64 list" where
  "diag_store buf pos [] = Inr buf"
| "diag_store buf pos (v # vs) =
     (if pos < length buf then diag_store (buf[pos := v]) (Suc pos) vs else Inl PanicIndex)"

definition SparseDiag :: "int \<Rightarrow> int \<Rightarrow> float64 list \<Rightarrow> panic + sparseDiagF64Matrix" where
  "SparseDiag rows cols diag =
     (if int (length diag) > rows \<or> int (length diag) > cols then Inl PanicDiagCount
      else
        let size = (if cols < rows then cols else rows) in
        case make_slice (Finite 0) size of
          Inl e \<Rightarrow> Inl e
        | Inr buf \<Rightarrow>
            (case diag_store buf 0 diag of
               Inl e \<Rightarrow> Inl e
             | Inr buf' \<Rightarrow> Inr \<lparr>diag_shape = [rows, cols], diag_diag = buf'\<rparr>))"

lemma diag_store_fits:
  "pos + length vs \<le> length buf \<Longrightarrow>
   diag_store buf pos vs = Inr (take pos buf @ vs @ drop (pos + length vs) buf)"
proof (induction vs arbitrary: buf pos)
  case Nil
  then show ?case by simp
next
  case (Cons v vs)
  from Cons.prems have lt: "pos < length buf" by simp
  have fits: "Suc pos + length vs \<le> length (buf[pos := v])" using Cons.prems by simp
  have t: "take (Suc pos) (buf[pos := v]) = take pos buf @ [v]"
    using lt by (simp add: take_Suc_conv_app_nth)
  have d: "drop (Suc pos + length vs) (buf[pos := v]) = drop (Suc pos + length vs) buf"
    by simp
  show ?case using lt Cons.IH [OF fits] t d by simp
qed

lemma SparseDiag_too_many:
  "min rows cols < int (length diag) \<Longrightarrow> SparseDiag rows cols diag = Inl PanicDiagCount"
  by (auto simp: SparseDiag_def)

lemma SparseDiag_fits:
  assumes "int (length diag) \<le> min rows cols"
  shows "SparseDiag rows cols diag =
           Inr \<lparr>diag_shape = [rows, cols],
                diag_diag = diag @ replicate (nat (min rows cols) - length diag) (Finite 0)\<rparr>"
proof -
  let ?size = "if cols < rows then cols else rows"
  have sz: "?size = min rows cols" by (simp add: min_def)
  have nn: "0 \<le> min rows cols" using assms by linarith
  have "\<not> min rows cols < 0" using nn by linarith
  then have mk: "make_slice (Finite 0) ?size = Inr (replicate (nat (min rows cols)) (Finite 0))"
    unfolding sz by (simp only: make_slice_def if_False)
  have "length diag \<le> nat (min rows cols)" using assms by linarith
  then have fits: "0 + length diag \<le> length (replicate (nat (min rows cols)) (Finite 0 :: float64))"
    by (simp only: length_replicate add_0)
  have st: "diag_store (replicate (nat (min rows cols)) (Finite 0)) 0 diag =
              Inr (diag @ replicate (nat (min rows cols) - length diag) (Finite 0))"
    using diag_store_fits [OF fits] by simp
  have chk: "\<not> (int (length diag) > rows \<or> int (length diag) > cols)" using assms by simp
  show ?thesis unfolding SparseDiag_def using chk mk st by (simp add: Let_def del: min_less_iff_conj)
qed

text \<open>
  C7. \<open>SparseDiag(rows, cols, diag...)\<close> fails fatally at construction time if and only
  if the number of supplied diagonal values exceeds \<open>min(rows, cols)\<close>, and the failure is
  then the constructor's own panic; with at most \<open>min(rows, cols)\<close> values it
  constructs the matrix of that shape, whose diagonal buffer has length
  \<open>min(rows, cols)\<close> and holds each supplied value at its position, zero after them.
\<close>

theorem SparseDiag_construction:
  "(isl (SparseDiag rows cols diag) \<longleftrightarrow> min rows cols < int (length diag)) \<and>
   (SparseDiag rows cols diag = Inl PanicDiagCount \<longleftrightarrow> min rows cols < int (length diag)) \<and>
   (int (length diag) \<le> min rows cols \<longrightarrow>
      (\<exists>a. SparseDiag rows cols diag = Inr a \<and> diag_shape a = [rows, cols] \<and>
           length (diag_diag a) = nat (min rows cols) \<and>
           (\<forall>pos < length diag. diag_diag a ! pos = diag ! pos) \<and>
           (\<forall>pos. length diag \<le> pos \<and> pos < nat (min rows cols) \<longrightarrow>
                  diag_diag a ! pos = Finite 0)))"
proof (cases "min rows cols < int (length diag)")
  case True
  have "\<not> int (length diag) \<le> min rows cols" using True by linarith
  with SparseDiag_too_many [OF True] True show ?thesis by (simp only: sum.disc simp_thms)
next
  case False
  then have le: "int (length diag) \<le> min rows cols" by linarith
  let ?a = "\<lparr>diag_shape = [rows, cols],
             diag_diag = diag @ replicate (nat (min rows cols) - length diag) (Finite 0)\<rparr>"
  have r: "SparseDiag rows cols diag = Inr ?a" using SparseDiag_fits [OF le] .
  have "length diag \<le> nat (min rows cols)" using le by linarith
  then have len: "length (diag_diag ?a) = nat (min rows cols)" by simp
  have front: "\<forall>pos < length diag. diag_diag ?a ! pos = diag ! pos"
    by (simp add: nth_append)
  have tail0: "\<forall>pos. length diag \<le> pos \<and> pos < nat (min rows cols) \<longrightarrow>
                diag_diag ?a ! pos = Finite 0"
  proof (intro allI impI)
    fix pos assume p: "length diag \<le> pos \<and> pos < nat (min rows cols)"
    then have "pos - length diag < nat (min rows cols) - length diag" by linarith
    then have "replicate (nat (min rows cols) - length diag) (Finite 0 :: float64) !
                 (pos - length diag) = Finite 0" by (rule nth_replicate)
    then show "diag_diag ?a ! pos = Finite 0" using p by (simp add: nth_append)
  qed
  have "\<exists>a. SparseDiag rows cols diag = Inr a \<and> diag_shape a = [rows, cols] \<and>
           length (diag_diag a) = nat (min rows cols) \<and>
           (\<forall>pos < length diag. diag_diag a ! pos = diag ! pos) \<and>
           (\<forall>pos. length diag \<le> pos \<and> pos < nat (min rows cols) \<longrightarrow>
                  diag_diag a ! pos = Finite 0)"
    using r len front tail0 by (intro exI [of _ ?a] conjI) simp_all
  moreover have "\<not> isl (SparseDiag rows cols diag)" using r by simp
  moreover have "SparseDiag rows cols diag \<noteq> Inl PanicDiagCount" using r by simp
  ultimately show ?thesis using False by simp
qed

theorem SparseDiag_construction_witness:
  "SparseDiag 2 3 [Finite 1, Finite 2, Finite 3] = Inl PanicDiagCount \<and>
   SparseDiag 3 2 [Finite 5] = Inr \<lparr>diag_shape = [3, 2], diag_diag = [Finite 5, Finite 0]\<rparr>"
proof -
  have a: "SparseDiag 2 3 [Finite 1, Finite 2, Finite 3] = Inl PanicDiagCount"
    using SparseDiag_construction [of 2 3 "[Finite 1, Finite 2, Finite 3]"] by simp
  from SparseDiag_construction [of 3 2 "[Finite 5]"]
  obtain a where r: "SparseDiag 3 2 [Finite 5] = Inr a" and sh: "diag_shape a = [3, 2]"
    and len: "length (diag_diag a) = 2" and v: "diag_diag a ! 0 = Finite 5"
    and z: "diag_diag a ! 1 = Finite 0"
    by auto
  have "diag_diag a = [diag_diag a ! 0, diag_diag a ! 1]"
    using len by (cases "diag_diag a"; simp; cases "tl (diag_diag a)"; simp)
  then have "diag_diag a = [Finite 5, Finite 0]" using v z by simp
  then have "a = \<lparr>diag_shape = [3, 2], diag_diag = [Finite 5, Finite 0]\<rparr>" using sh by simp
  with a r show ?thesis by simp
qed

subsection \<open>SparseCoo: the sparse-coordinate constructor\<close>

text \<open>
  Modelled from the spec: \<^verbatim>\<open>ItemSet\<close> of the sparse-coordinate type, defined in a file
  that is not among the sources. The spec: row \<open>i\<close> owns a mapping from column index to
  value, and \<^verbatim>\<open>ItemSet\<close> stores whatever value is given at the given coordinate,
  overwriting any prior entry for that coordinate. A coordinate outside the shape is an
  index panic.
\<close>

definition coo_ItemSet ::
  "sparseCooF64Matrix \<Rightarrow> float64 \<Rightarrow> int list \<Rightarrow> panic + sparseCooF64Matrix" where
  "coo_ItemSet m v index =
     (if valid_coord (coo_shape m) index \<and> length index = 2 \<and>
         nat (index ! 0) < length (coo_values m)
      then Inr (m\<lparr>coo_values :=
                   (coo_values m)[nat (index ! 0) :=
                      (coo_values m ! nat (index ! 0))(index ! 1 \<mapsto> v)]\<rparr>)
      else Inl PanicIndex)"

text \<open>
  Modelled from the spec: \<^verbatim>\<open>Item\<close> of the sparse-coordinate type, defined in a file that
  is not among the sources. The spec: the absence of a key means the value 0.
\<close>

definition coo_Item :: "sparseCooF64Matrix \<Rightarrow> int list \<Rightarrow> panic + float64" where
  "coo_Item m index =
     (if valid_coord (coo_shape m) index \<and> length index = 2 \<and>
         nat (index ! 0) < length (coo_values m)
      then Inr (case (coo_values m ! nat (index ! 0)) (index ! 1) of
                  None \<Rightarrow> Finite 0 | Some v \<Rightarrow> v)
      else Inl PanicIndex)"

text \<open>The entry a sparse-coordinate matrix stores at a coordinate, if it stores one.\<close>

definition coo_entry :: "sparseCooF64Matrix \<Rightarrow> int list \<Rightarrow> float64 option" where
  "coo_entry m index = (coo_values m ! nat (index ! 0)) (index ! 1)"

text \<open>
  \<^verbatim>\<open>SparseCoo\<close>. The slice of row maps is made with \<open>rows\<close> entries and each entry is
  set to an empty map; then the loop over the literal values stores every nonzero one at
  the coordinate of its flat index.
\<close>

fun SparseCoo_fill ::
  "sparseCooF64Matrix \<Rightarrow> int \<Rightarrow> float64 list \<Rightarrow> panic + sparseCooF64Matrix" where
  "SparseCoo_fill m idx [] = Inr m"
| "SparseCoo_fill m idx (val # array) =
     (if val \<noteq> Finite 0 then
        (case flatToNd (coo_shape m) idx of
           Inl e \<Rightarrow> Inl e
         | Inr coord \<Rightarrow>
             (case coo_ItemSet m val coord of
                Inl e \<Rightarrow> Inl e
              | Inr m' \<Rightarrow> SparseCoo_fill m' (idx + 1) array))
      else SparseCoo_fill m (idx + 1) array)"

definition SparseCoo :: "int \<Rightarrow> int \<Rightarrow> float64 list \<Rightarrow> panic + sparseCooF64Matrix" where
  "SparseCoo rows cols array =
     (case make_slice Map.empty rows of
        Inl e \<Rightarrow> Inl e
      | Inr values \<Rightarrow> SparseCoo_fill \<lparr>coo_shape = [rows, cols], coo_values = values\<rparr> 0 array)"

text \<open>The entry stored for a flat index, through the index mapping.\<close>

definition coo_entry_at :: "sparseCooF64Matrix \<Rightarrow> int \<Rightarrow> float64 option" where
  "coo_entry_at m k = (case flatToNd (coo_shape m) k of Inl e \<Rightarrow> None | Inr c \<Rightarrow> coo_entry m c)"

text \<open>A sparse-coordinate matrix is well formed when it has one row map per row.\<close>

definition coo_wf :: "sparseCooF64Matrix \<Rightarrow> bool" where
  "coo_wf m = (length (coo_shape m) = 2 \<and> valid_shape (coo_shape m) \<and>
               length (coo_values m) = nat (coo_shape m ! 0))"

lemma valid_coord_2d:
  "valid_coord [rows, cols] c \<longleftrightarrow>
     (\<exists>i j. c = [i, j] \<and> 0 \<le> i \<and> i < rows \<and> 0 \<le> j \<and> j < cols)"
  by (auto simp: valid_coord_def list_all2_Cons2)

lemma coo_wf_shape:
  assumes "coo_wf m"
  obtains rows cols where "coo_shape m = [rows, cols]" "0 \<le> rows" "0 \<le> cols"
    "length (coo_values m) = nat rows"
proof -
  from assms have l: "length (coo_shape m) = 2" by (simp add: coo_wf_def)
  then obtain rows cols where sh: "coo_shape m = [rows, cols]"
    by (cases "coo_shape m"; simp; cases "tl (coo_shape m)"; simp)
  with assms have "0 \<le> rows" "0 \<le> cols" "length (coo_values m) = nat rows"
    by (simp_all add: coo_wf_def valid_shape_def)
  with sh that show thesis by blast
qed

lemma flatToNd_valid:
  assumes "valid_shape shape" "flatToNd shape k = Inr c"
  shows "0 \<le> k \<and> k < prod_list shape \<and> valid_coord shape c \<and> ndToFlat shape c = Inr k"
proof -
  from assms(2) have r: "0 \<le> k" "k < prod_list shape"
    by (auto simp: flatToNd_def split: if_splits)
  from flatToNd_ndToFlat [OF assms(1) r] assms(2) r show ?thesis by auto
qed

lemma flatToNd_inj:
  assumes "valid_shape shape" "flatToNd shape k = Inr c" "flatToNd shape k' = Inr c"
  shows "k = k'"
proof -
  from flatToNd_valid [OF assms(1,2)] have "ndToFlat shape c = Inr k" by simp
  moreover from flatToNd_valid [OF assms(1,3)] have "ndToFlat shape c = Inr k'" by simp
  ultimately show ?thesis by simp
qed

lemma coo_ItemSet_at:
  assumes wf: "coo_wf m" and f: "flatToNd (coo_shape m) k0 = Inr c"
  shows "\<exists>m1. coo_ItemSet m v c = Inr m1 \<and> coo_wf m1 \<and> coo_shape m1 = coo_shape m \<and>
           (\<forall>k. 0 \<le> k \<and> k < prod_list (coo_shape m) \<longrightarrow>
                coo_entry_at m1 k = (if k = k0 then Some v else coo_entry_at m k))"
proof -
  from wf obtain rows cols where sh: "coo_shape m = [rows, cols]" and nn: "0 \<le> rows" "0 \<le> cols"
    and len: "length (coo_values m) = nat rows" by (rule coo_wf_shape)
  have vs: "valid_shape (coo_shape m)" using wf by (simp add: coo_wf_def)
  from flatToNd_valid [OF vs f] have vc: "valid_coord (coo_shape m) c" by simp
  then obtain i j where c: "c = [i, j]" and ij: "0 \<le> i" "i < rows" "0 \<le> j" "j < cols"
    using sh by (auto simp: valid_coord_2d)
  define row where "row = (coo_values m ! nat i)(j \<mapsto> v)"
  define m1 where "m1 = m\<lparr>coo_values := (coo_values m)[nat i := row]\<rparr>"
  have ni: "nat i < length (coo_values m)" using ij len by simp
  have set: "coo_ItemSet m v c = Inr m1"
    using vc ni c by (simp add: coo_ItemSet_def m1_def row_def)
  have sh1: "coo_shape m1 = coo_shape m" by (simp add: m1_def)
  have vals1: "coo_values m1 = (coo_values m)[nat i := row]" by (simp add: m1_def)
  have wf1: "coo_wf m1" using wf by (simp add: coo_wf_def sh1 vals1)
  have ent: "coo_entry_at m1 k = (if k = k0 then Some v else coo_entry_at m k)"
    if k: "0 \<le> k \<and> k < prod_list (coo_shape m)" for k
  proof -
    from flatToNd_ndToFlat [OF vs] k obtain c' where f': "flatToNd (coo_shape m) k = Inr c'"
      and vc': "valid_coord (coo_shape m) c'" by blast
    then obtain i' j' where c': "c' = [i', j']" and ij': "0 \<le> i'" "i' < rows"
      using sh by (auto simp: valid_coord_2d)
    have same: "c' = c \<longleftrightarrow> k = k0"
    proof
      assume "c' = c"
      with f' have "flatToNd (coo_shape m) k = Inr c" by simp
      from flatToNd_inj [OF vs this f] show "k = k0" .
    next
      assume "k = k0"
      with f f' show "c' = c" by simp
    qed
    have e1: "coo_entry_at m1 k = coo_entry m1 c'" using f' by (simp add: coo_entry_at_def sh1)
    have e0: "coo_entry_at m k = coo_entry m c'" using f' by (simp add: coo_entry_at_def)
    have ni': "nat i' < length (coo_values m)" using ij' len by simp
    have "coo_entry m1 c' = (if c' = c then Some v else coo_entry m c')"
    proof (cases "i' = i")
      case True
      have "coo_entry m1 c' = row j'" using ni True by (simp add: coo_entry_def vals1 c')
      also have "\<dots> = (if j' = j then Some v else (coo_values m ! nat i) j')"
        by (simp add: row_def)
      also have "\<dots> = (if c' = c then Some v else coo_entry m c')"
        using True by (simp add: coo_entry_def c c')
      finally show ?thesis .
    next
      case False
      then have "nat i' \<noteq> nat i" using ij ij' by simp
      then have "coo_entry m1 c' = coo_entry m c'" by (simp add: coo_entry_def vals1 c')
      then show ?thesis using False by (simp add: c c')
    qed
    with e1 e0 same show ?thesis by simp
  qed
  show ?thesis
  proof (intro exI [of _ m1] conjI allI impI)
    fix k assume "0 \<le> k \<and> k < prod_list (coo_shape m)"
    then show "coo_entry_at m1 k = (if k = k0 then Some v else coo_entry_at m k)" by (rule ent)
  qed (rule set wf1 sh1)+
qed

lemma nth_Cons_shift:
  "idx < k \<Longrightarrow> (val # array) ! nat (k - idx) = array ! nat (k - (idx + 1))"
proof -
  assume "idx < k"
  then have "nat (k - idx) = Suc (nat (k - (idx + 1)))" by simp
  then show ?thesis by simp
qed

lemma SparseCoo_fill_step:
  assumes ent: "coo_entry_at m' k =
                  (if idx + 1 \<le> k \<and> k < idx + 1 + int (length array) \<and>
                      array ! nat (k - (idx + 1)) \<noteq> Finite 0
                   then Some (array ! nat (k - (idx + 1))) else e1)"
    and e1: "e1 = (if k = idx \<and> val \<noteq> Finite 0 then Some val else e0)"
  shows "coo_entry_at m' k =
           (if idx \<le> k \<and> k < idx + int (length (val # array)) \<and>
               (val # array) ! nat (k - idx) \<noteq> Finite 0
            then Some ((val # array) ! nat (k - idx)) else e0)"
proof (cases "k = idx")
  case True
  then show ?thesis using ent e1 by simp
next
  case False
  show ?thesis
  proof (cases "idx < k")
    case True
    from nth_Cons_shift [OF True] have sh: "(val # array) ! nat (k - idx) = array ! nat (k - (idx + 1))" .
    have a: "idx + 1 \<le> k \<longleftrightarrow> True" using True by simp
    have b: "idx \<le> k \<longleftrightarrow> True" using True by simp
    have c: "k < idx + int (length (val # array)) \<longleftrightarrow> k < idx + 1 + int (length array)" by auto
    show ?thesis unfolding sh b c using ent e1 False a by simp
  next
    case lt: False
    with False have "k < idx" by simp
    then show ?thesis using ent e1 by simp
  qed
qed

lemma SparseCoo_fill_entries:
  assumes "coo_wf m" "0 \<le> idx" "SparseCoo_fill m idx array = Inr m'"
  shows "coo_wf m' \<and> coo_shape m' = coo_shape m \<and>
         (\<forall>k. 0 \<le> k \<and> k < prod_list (coo_shape m) \<longrightarrow>
              coo_entry_at m' k =
                (if idx \<le> k \<and> k < idx + int (length array) \<and> array ! nat (k - idx) \<noteq> Finite 0
                 then Some (array ! nat (k - idx)) else coo_entry_at m k))"
  using assms
proof (induction array arbitrary: m idx)
  case Nil
  then have "m' = m" by simp
  moreover have "\<not> (idx \<le> k \<and> k < idx + int (length ([]::float64 list)) \<and> P)" for k P by simp
  ultimately show ?case using Nil.prems(1) by (simp only: if_False simp_thms)
next
  case (Cons val array)
  have i1: "0 \<le> idx + 1" using Cons.prems(2) by simp
  show ?case
  proof (cases "val = Finite 0")
    case True
    with Cons.prems(3) have fill: "SparseCoo_fill m (idx + 1) array = Inr m'" by simp
    from Cons.IH [OF Cons.prems(1) i1 fill]
    have wf': "coo_wf m'" and sh': "coo_shape m' = coo_shape m"
      and ent: "\<forall>k. 0 \<le> k \<and> k < prod_list (coo_shape m) \<longrightarrow>
              coo_entry_at m' k =
                (if idx + 1 \<le> k \<and> k < idx + 1 + int (length array) \<and>
                    array ! nat (k - (idx + 1)) \<noteq> Finite 0
                 then Some (array ! nat (k - (idx + 1))) else coo_entry_at m k)"
      by blast+
    have "coo_entry_at m' k =
            (if idx \<le> k \<and> k < idx + int (length (val # array)) \<and>
                (val # array) ! nat (k - idx) \<noteq> Finite 0
             then Some ((val # array) ! nat (k - idx)) else coo_entry_at m k)"
      if k: "0 \<le> k \<and> k < prod_list (coo_shape m)" for k
    proof (rule SparseCoo_fill_step)
      show "coo_entry_at m' k =
              (if idx + 1 \<le> k \<and> k < idx + 1 + int (length array) \<and>
                  array ! nat (k - (idx + 1)) \<noteq> Finite 0
               then Some (array ! nat (k - (idx + 1))) else coo_entry_at m k)"
        using ent k by blast
      show "coo_entry_at m k = (if k = idx \<and> val \<noteq> Finite 0 then Some val else coo_entry_at m k)"
        using True by simp
    qed
    with wf' sh' show ?thesis by blast
  next
    case False
    with Cons.prems(3) obtain coord where f: "flatToNd (coo_shape m) idx = Inr coord"
      by (cases "flatToNd (coo_shape m) idx") simp_all
    from coo_ItemSet_at [OF Cons.prems(1) f, of val]
    obtain m1 where set: "coo_ItemSet m val coord = Inr m1" and wf1: "coo_wf m1"
      and sh1: "coo_shape m1 = coo_shape m"
      and ent1: "\<forall>k. 0 \<le> k \<and> k < prod_list (coo_shape m) \<longrightarrow>
                coo_entry_at m1 k = (if k = idx then Some val else coo_entry_at m k)"
      by blast
    from Cons.prems(3) False f set have fill: "SparseCoo_fill m1 (idx + 1) array = Inr m'"
      by simp
    from Cons.IH [OF wf1 i1 fill]
    have wf': "coo_wf m'" and sh': "coo_shape m' = coo_shape m1"
      and ent: "\<forall>k. 0 \<le> k \<and> k < prod_list (coo_shape m1) \<longrightarrow>
              coo_entry_at m' k =
                (if idx + 1 \<le> k \<and> k < idx + 1 + int (length array) \<and>
                    array ! nat (k - (idx + 1)) \<noteq> Finite 0
                 then Some (array ! nat (k - (idx + 1))) else coo_entry_at m1 k)"
      by blast+
    have "coo_entry_at m' k =
            (if idx \<le> k \<and> k < idx + int (length (val # array)) \<and>
                (val # array) ! nat (k - idx) \<noteq> Finite 0
             then Some ((val # array) ! nat (k - idx)) else coo_entry_at m k)"
      if k: "0 \<le> k \<and> k < prod_list (coo_shape m)" for k
    proof (rule SparseCoo_fill_step)
      show "coo_entry_at m' k =
              (if idx + 1 \<le> k \<and> k < idx + 1 + int (length array) \<and>
                  array ! nat (k - (idx + 1)) \<noteq> Finite 0
               then Some (array ! nat (k - (idx + 1))) else coo_entry_at m1 k)"
        using ent k sh1 by simp
      show "coo_entry_at m1 k = (if k = idx \<and> val \<noteq> Finite 0 then Some val else coo_entry_at m k)"
        using ent1 k False by simp
    qed
    with wf' sh' sh1 show ?thesis by simp
  qed
qed

lemma coo_ItemSet_shape:
  "coo_ItemSet m v c = Inr m1 \<Longrightarrow> coo_shape m1 = coo_shape m"
  by (auto simp: coo_ItemSet_def split: if_splits)

lemma SparseCoo_fill_shape:
  "SparseCoo_fill m idx array = Inr m' \<Longrightarrow> coo_shape m' = coo_shape m"
proof (induction array arbitrary: m idx)
  case Nil
  then show ?case by simp
next
  case (Cons val array)
  show ?case
  proof (cases "val = Finite 0")
    case True
    with Cons.prems have "SparseCoo_fill m (idx + 1) array = Inr m'" by simp
    then show ?thesis by (rule Cons.IH)
  next
    case False
    with Cons.prems obtain coord where f: "flatToNd (coo_shape m) idx = Inr coord"
      by (cases "flatToNd (coo_shape m) idx") simp_all
    with Cons.prems False obtain m1 where s: "coo_ItemSet m val coord = Inr m1"
      by (cases "coo_ItemSet m val coord") simp_all
    with Cons.prems False f have "SparseCoo_fill m1 (idx + 1) array = Inr m'" by simp
    then have "coo_shape m' = coo_shape m1" by (rule Cons.IH)
    with coo_ItemSet_shape [OF s] show ?thesis by simp
  qed
qed

lemma SparseCoo_fill_nonzero_in_range:
  "SparseCoo_fill m idx array = Inr m' \<Longrightarrow> n < length array \<Longrightarrow> array ! n \<noteq> Finite 0 \<Longrightarrow>
   0 \<le> idx + int n \<and> idx + int n < prod_list (coo_shape m)"
proof (induction array arbitrary: m idx n)
  case Nil
  then show ?case by simp
next
  case (Cons val array)
  show ?case
  proof (cases n)
    case 0
    with Cons.prems have nz: "val \<noteq> Finite 0" by simp
    with Cons.prems(1) obtain coord where "flatToNd (coo_shape m) idx = Inr coord"
      by (cases "flatToNd (coo_shape m) idx") simp_all
    then have "0 \<le> idx \<and> idx < prod_list (coo_shape m)"
      by (auto simp: flatToNd_def split: if_splits)
    with 0 show ?thesis by simp
  next
    case (Suc n')
    with Cons.prems have n': "n' < length array" and nz: "array ! n' \<noteq> Finite 0" by simp_all
    have "\<exists>m1. SparseCoo_fill m1 (idx + 1) array = Inr m' \<and> coo_shape m1 = coo_shape m"
    proof (cases "val = Finite 0")
      case True
      with Cons.prems(1) show ?thesis by auto
    next
      case False
      with Cons.prems(1) obtain coord where f: "flatToNd (coo_shape m) idx = Inr coord"
        by (cases "flatToNd (coo_shape m) idx") simp_all
      with Cons.prems(1) False obtain m1 where s: "coo_ItemSet m val coord = Inr m1"
        by (cases "coo_ItemSet m val coord") simp_all
      with Cons.prems(1) False f have "SparseCoo_fill m1 (idx + 1) array = Inr m'" by simp
      with coo_ItemSet_shape [OF s] show ?thesis by blast
    qed
    then obtain m1 where fill: "SparseCoo_fill m1 (idx + 1) array = Inr m'"
      and sh: "coo_shape m1 = coo_shape m" by blast
    from Cons.IH [OF fill n' nz] sh Suc show ?thesis by simp
  qed
qed

lemma SparseCoo_fill_succeeds:
  "coo_wf m \<Longrightarrow> 0 \<le> idx \<Longrightarrow> idx + int (length array) \<le> prod_list (coo_shape m) \<Longrightarrow>
   \<exists>m'. SparseCoo_fill m idx array = Inr m'"
proof (induction array arbitrary: m idx)
  case Nil
  then show ?case by simp
next
  case (Cons val array)
  have i1: "0 \<le> idx + 1" using Cons.prems(2) by simp
  show ?case
  proof (cases "val = Finite 0")
    case True
    have "idx + 1 + int (length array) \<le> prod_list (coo_shape m)" using Cons.prems(3) by simp
    from Cons.IH [OF Cons.prems(1) i1 this] True show ?thesis by simp
  next
    case False
    have "idx < prod_list (coo_shape m)" using Cons.prems(3) by simp
    with Cons.prems(2) obtain coord where f: "flatToNd (coo_shape m) idx = Inr coord"
      by (simp add: flatToNd_def)
    from coo_ItemSet_at [OF Cons.prems(1) f, of val]
    obtain m1 where s: "coo_ItemSet m val coord = Inr m1" and wf1: "coo_wf m1"
      and sh1: "coo_shape m1 = coo_shape m" by blast
    have "idx + 1 + int (length array) \<le> prod_list (coo_shape m1)"
      using Cons.prems(3) sh1 by simp
    from Cons.IH [OF wf1 i1 this] False f s show ?thesis by simp
  qed
qed

lemma SparseCoo_unfold:
  "0 \<le> rows \<Longrightarrow>
   SparseCoo rows cols array =
     SparseCoo_fill \<lparr>coo_shape = [rows, cols], coo_values = replicate (nat rows) Map.empty\<rparr> 0 array"
  by (simp add: SparseCoo_def make_slice_def)

lemma SparseCoo_rows_nonneg:
  "SparseCoo rows cols array = Inr m \<Longrightarrow> 0 \<le> rows"
  by (cases "rows < 0") (simp_all add: SparseCoo_def make_slice_def)

lemma coo_empty_wf:
  "0 \<le> rows \<Longrightarrow> 0 \<le> cols \<Longrightarrow>
   coo_wf \<lparr>coo_shape = [rows, cols], coo_values = replicate (nat rows) Map.empty\<rparr>"
  by (simp add: coo_wf_def valid_shape_def)

lemma coo_empty_entry_at:
  assumes "0 \<le> rows" "0 \<le> cols"
  shows "coo_entry_at \<lparr>coo_shape = [rows, cols], coo_values = replicate (nat rows) Map.empty\<rparr> k
           = None"
proof (cases "flatToNd [rows, cols] k")
  case (Inl e)
  then show ?thesis by (simp add: coo_entry_at_def)
next
  case (Inr c)
  have vs: "valid_shape [rows, cols]" using assms by (simp add: valid_shape_def)
  from flatToNd_valid [OF vs Inr] have "valid_coord [rows, cols] c" by simp
  then obtain i j where c: "c = [i, j]" and i: "0 \<le> i" "i < rows"
    by (auto simp: valid_coord_2d)
  have "nat i < nat rows" using i by simp
  then show ?thesis using Inr c by (simp add: coo_entry_at_def coo_entry_def)
qed

lemma pos_product_cols:
  "0 \<le> rows \<Longrightarrow> 0 \<le> k \<Longrightarrow> k < rows * cols \<Longrightarrow> (0::int) \<le> cols"
proof (rule ccontr)
  assume a: "0 \<le> rows" "0 \<le> k" "k < rows * cols" and "\<not> 0 \<le> cols"
  then have "cols \<le> 0" by simp
  with a(1) have "rows * cols \<le> 0" by (simp add: mult_nonneg_nonpos)
  with a(2,3) show False by simp
qed

lemma SparseCoo_entries:
  assumes ok: "SparseCoo rows cols array = Inr m" and k: "0 \<le> k" "k < rows * cols"
  shows "coo_wf m \<and> coo_shape m = [rows, cols] \<and>
         coo_entry_at m k =
           (if k < int (length array) \<and> array ! nat k \<noteq> Finite 0
            then Some (array ! nat k) else None)"
proof -
  let ?m0 = "\<lparr>coo_shape = [rows, cols], coo_values = replicate (nat rows) Map.empty\<rparr>"
  have r: "0 \<le> rows" using ok by (rule SparseCoo_rows_nonneg)
  have c: "0 \<le> cols" using r k by (rule pos_product_cols)
  have wf0: "coo_wf ?m0" using r c by (rule coo_empty_wf)
  have fill: "SparseCoo_fill ?m0 0 array = Inr m" using ok SparseCoo_unfold [OF r] by simp
  from SparseCoo_fill_entries [OF wf0 _ fill]
  have wf: "coo_wf m" and sh: "coo_shape m = coo_shape ?m0"
    and ent: "\<forall>k. 0 \<le> k \<and> k < prod_list (coo_shape ?m0) \<longrightarrow>
              coo_entry_at m k =
                (if 0 \<le> k \<and> k < 0 + int (length array) \<and> array ! nat (k - 0) \<noteq> Finite 0
                 then Some (array ! nat (k - 0)) else coo_entry_at ?m0 k)"
    by simp_all
  have "0 \<le> k \<and> k < prod_list (coo_shape ?m0)" using k by simp
  with ent have "coo_entry_at m k =
                (if 0 \<le> k \<and> k < 0 + int (length array) \<and> array ! nat (k - 0) \<noteq> Finite 0
                 then Some (array ! nat (k - 0)) else coo_entry_at ?m0 k)" by blast
  then have "coo_entry_at m k =
           (if k < int (length array) \<and> array ! nat k \<noteq> Finite 0
            then Some (array ! nat k) else None)"
    using k(1) coo_empty_entry_at [OF r c, of k] by simp
  with wf sh show ?thesis by simp
qed

lemma coo_Item_entry:
  assumes "coo_wf m" "flatToNd (coo_shape m) k = Inr c"
  shows "coo_Item m c = Inr (case coo_entry_at m k of None \<Rightarrow> Finite 0 | Some v \<Rightarrow> v)"
proof -
  from assms(1) obtain rows cols where sh: "coo_shape m = [rows, cols]"
    and len: "length (coo_values m) = nat rows" by (rule coo_wf_shape)
  have vs: "valid_shape (coo_shape m)" using assms(1) by (simp add: coo_wf_def)
  from flatToNd_valid [OF vs assms(2)] have vc: "valid_coord (coo_shape m) c" by simp
  then obtain i j where c: "c = [i, j]" and i: "0 \<le> i" "i < rows"
    using sh by (auto simp: valid_coord_2d)
  have "nat i < length (coo_values m)" using i len by simp
  then show ?thesis using vc c assms(2) by (simp add: coo_Item_def coo_entry_at_def coo_entry_def)
qed

text \<open>
  C9. When \<open>SparseCoo(rows, cols, array...)\<close> is constructed from a row-major literal
  sequence, every flat index whose literal value is nonzero is stored at the coordinate
  that the row-major conversion gives for that index, and no entry is stored for the
  coordinate of a zero-valued literal position.
\<close>

theorem SparseCoo_stores_nonzero_literals:
  assumes "SparseCoo rows cols array = Inr m" "idx < length array"
  shows "(array ! idx \<noteq> Finite 0 \<longrightarrow>
            (\<exists>coord. flatToNd [rows, cols] (int idx) = Inr coord \<and>
                     coo_entry m coord = Some (array ! idx))) \<and>
         (array ! idx = Finite 0 \<longrightarrow>
            (\<forall>coord. flatToNd [rows, cols] (int idx) = Inr coord \<longrightarrow> coo_entry m coord = None))"
proof (intro conjI impI allI)
  assume nz: "array ! idx \<noteq> Finite 0"
  let ?m0 = "\<lparr>coo_shape = [rows, cols], coo_values = replicate (nat rows) Map.empty\<rparr>"
  have r: "0 \<le> rows" using assms(1) by (rule SparseCoo_rows_nonneg)
  have fill: "SparseCoo_fill ?m0 0 array = Inr m" using assms(1) SparseCoo_unfold [OF r] by simp
  from SparseCoo_fill_nonzero_in_range [OF fill assms(2) nz]
  have k: "0 \<le> int idx" "int idx < rows * cols" by simp_all
  from SparseCoo_entries [OF assms(1) k] assms(2) nz
  have sh: "coo_shape m = [rows, cols]" and e: "coo_entry_at m (int idx) = Some (array ! idx)"
    by simp_all
  from k obtain coord where f: "flatToNd [rows, cols] (int idx) = Inr coord"
    by (simp add: flatToNd_def)
  with e sh have "coo_entry m coord = Some (array ! idx)" by (simp add: coo_entry_at_def)
  with f show "\<exists>coord. flatToNd [rows, cols] (int idx) = Inr coord \<and>
                 coo_entry m coord = Some (array ! idx)" by blast
next
  fix coord
  assume z: "array ! idx = Finite 0" and f: "flatToNd [rows, cols] (int idx) = Inr coord"
  from f have k: "0 \<le> int idx" "int idx < rows * cols"
    by (auto simp: flatToNd_def split: if_splits)
  from SparseCoo_entries [OF assms(1) k] z
  have sh: "coo_shape m = [rows, cols]" and e: "coo_entry_at m (int idx) = None"
    by simp_all
  with f show "coo_entry m coord = None" by (simp add: coo_entry_at_def)
qed

lemma SparseCoo_example:
  "SparseCoo 2 2 [Finite 1, Finite 0, Finite 0, Finite 2] =
     Inr \<lparr>coo_shape = [2, 2], coo_values = [[0 \<mapsto> Finite 1], [1 \<mapsto> Finite 2]]\<rparr>"
  by (simp add: SparseCoo_def make_slice_def flatToNd_def coo_ItemSet_def valid_coord_def
      numeral_2_eq_2)

theorem SparseCoo_stores_nonzero_literals_witness:
  "SparseCoo 2 2 [Finite 1, Finite 0, Finite 0, Finite 2] =
     Inr \<lparr>coo_shape = [2, 2], coo_values = [[0 \<mapsto> Finite 1], [1 \<mapsto> Finite 2]]\<rparr> \<and>
   flatToNd [2, 2] 3 = Inr [1, 1] \<and>
   coo_entry \<lparr>coo_shape = [2, 2], coo_values = [[0 \<mapsto> Finite 1], [1 \<mapsto> Finite 2]]\<rparr> [1, 1]
     = Some (Finite 2) \<and>
   flatToNd [2, 2] 1 = Inr [0, 1] \<and>
   coo_entry \<lparr>coo_shape = [2, 2], coo_values = [[0 \<mapsto> Finite 1], [1 \<mapsto> Finite 2]]\<rparr> [0, 1]
     = None"
proof -
  let ?m = "\<lparr>coo_shape = [2, 2], coo_values = [[0 \<mapsto> Finite 1], [1 \<mapsto> Finite 2]]\<rparr>"
  let ?a = "[Finite 1, Finite 0, Finite 0, Finite 2]"
  have ok: "SparseCoo 2 2 ?a = Inr ?m" by (rule SparseCoo_example)
  have f3: "flatToNd [2, 2] 3 = Inr [1, 1]" and f1: "flatToNd [2, 2] 1 = Inr [0, 1]"
    by (simp_all add: flatToNd_def)
  have l3: "3 < length ?a" and l1: "1 < length ?a" by simp_all
  from SparseCoo_stores_nonzero_literals [OF ok l3] f3
  have e3: "coo_entry ?m [1, 1] = Some (Finite 2)" by simp
  from SparseCoo_stores_nonzero_literals [OF ok l1] f1
  have e1: "coo_entry ?m [0, 1] = None" by simp
  from ok f3 e3 f1 e1 show ?thesis by blast
qed

text \<open>
  A negative row count is not an extent of a shape: the runtime refuses to make the slice
  of row maps.
\<close>

lemma SparseCoo_negative_rows: "rows < 0 \<Longrightarrow> SparseCoo rows cols array = Inl PanicMakeLen"
  by (simp add: SparseCoo_def make_slice_def)

text \<open>
  C10. \<open>SparseCoo(rows, cols, array...)\<close> accepts a literal sequence shorter than
  \<open>rows * cols\<close>: for every row count that is an extent of a shape (not negative), every
  \<open>cols\<close> and every \<open>array\<close> with \<open>len(array) \<le> rows * cols\<close> the construction
  succeeds, and every cell whose flat index is at least \<open>len(array)\<close> reads as zero.
\<close>

theorem SparseCoo_short_literal:
  assumes "0 \<le> rows" "int (length array) \<le> rows * cols"
  shows "\<exists>m. SparseCoo rows cols array = Inr m \<and>
           (\<forall>k. int (length array) \<le> k \<and> k < rows * cols \<longrightarrow>
                (\<exists>coord. flatToNd [rows, cols] k = Inr coord \<and>
                         coo_Item m coord = Inr (Finite 0)))"
proof -
  let ?m0 = "\<lparr>coo_shape = [rows, cols], coo_values = replicate (nat rows) Map.empty\<rparr>"
  have ex: "\<exists>m. SparseCoo rows cols array = Inr m"
  proof (cases "0 \<le> cols")
    case True
    have wf0: "coo_wf ?m0" using assms(1) True by (rule coo_empty_wf)
    have "0 + int (length array) \<le> prod_list (coo_shape ?m0)" using assms(2) by simp
    from SparseCoo_fill_succeeds [OF wf0 _ this] SparseCoo_unfold [OF assms(1)]
    show ?thesis by simp
  next
    case False
    then have "rows * cols \<le> 0" using assms(1) by (simp add: mult_nonneg_nonpos)
    with assms(2) have "int (length array) \<le> 0" by linarith
    then have "array = []" by simp
    then show ?thesis using SparseCoo_unfold [OF assms(1)] by simp
  qed
  then obtain m where ok: "SparseCoo rows cols array = Inr m" by blast
  have "\<exists>coord. flatToNd [rows, cols] k = Inr coord \<and> coo_Item m coord = Inr (Finite 0)"
    if k: "int (length array) \<le> k \<and> k < rows * cols" for k
  proof -
    from k have k0: "0 \<le> k" "k < rows * cols" by simp_all
    from SparseCoo_entries [OF ok k0] k
    have wf: "coo_wf m" and sh: "coo_shape m = [rows, cols]" and e: "coo_entry_at m k = None"
      by simp_all
    from k0 obtain coord where f: "flatToNd [rows, cols] k = Inr coord"
      by (simp add: flatToNd_def)
    from coo_Item_entry [OF wf] f sh e have "coo_Item m coord = Inr (Finite 0)" by simp
    with f show ?thesis by blast
  qed
  with ok show ?thesis by blast
qed

theorem SparseCoo_short_literal_witness:
  "SparseCoo 2 2 [Finite 1] =
     Inr \<lparr>coo_shape = [2, 2], coo_values = [[0 \<mapsto> Finite 1], Map.empty]\<rparr> \<and>
   flatToNd [2, 2] 3 = Inr [1, 1] \<and>
   coo_Item \<lparr>coo_shape = [2, 2], coo_values = [[0 \<mapsto> Finite 1], Map.empty]\<rparr> [1, 1]
     = Inr (Finite 0)"
proof -
  let ?m = "\<lparr>coo_shape = [2, 2], coo_values = [[0 \<mapsto> Finite 1], Map.empty]\<rparr>"
  have ok: "SparseCoo 2 2 [Finite 1] = Inr ?m"
    by (simp add: SparseCoo_def make_slice_def flatToNd_def coo_ItemSet_def valid_coord_def
        numeral_2_eq_2)
  have f3: "flatToNd [2, 2] 3 = Inr [1, 1]" by (simp add: flatToNd_def)
  have h1: "(0::int) \<le> 2" and h2: "int (length [Finite 1]) \<le> 2 * 2" by simp_all
  from SparseCoo_short_literal [OF h1 h2] ok
  have "\<forall>k. int (length [Finite 1]) \<le> k \<and> k < 2 * 2 \<longrightarrow>
          (\<exists>coord. flatToNd [2, 2] k = Inr coord \<and> coo_Item ?m coord = Inr (Finite 0))"
    by simp
  then have "\<exists>coord. flatToNd [2, 2] 3 = Inr coord \<and> coo_Item ?m coord = Inr (Finite 0)"
    by (rule allE [of _ 3]) simp
  with f3 have "coo_Item ?m [1, 1] = Inr (Finite 0)" by simp
  with ok f3 show ?thesis by blast
qed

section \<open>The capability interface and the backend bridge\<close>

text \<open>
  Modelled from the spec: the shape queries and the element read of the \<^verbatim>\<open>Matrix\<close>
  interface, whose implementations are defined in files that are not among the sources.
  The spec: a dense element at coordinate \<open>(i, j)\<close> lives at flat index \<open>i * cols + j\<close>;
  in the sparse-diagonal storage the value at position \<open>k\<close> represents coordinate
  \<open>(k, k)\<close> and reading any off-diagonal coordinate returns 0. A coordinate outside the
  shape is an index panic.
\<close>

fun Shape :: "Matrix \<Rightarrow> int list" where
  "Shape (DenseM a) = dense_shape a"
| "Shape (CooM m) = coo_shape m"
| "Shape (DiagM d) = diag_shape d"

definition Rows :: "Matrix \<Rightarrow> int" where
  "Rows m = Shape m ! 0"

definition Cols :: "Matrix \<Rightarrow> int" where
  "Cols m = Shape m ! 1"

definition dense_Item :: "denseF64Array \<Rightarrow> int list \<Rightarrow> panic + float64" where
  "dense_Item a index =
     (case ndToFlat (dense_shape a) index of
        Inl e \<Rightarrow> Inl e
      | Inr k \<Rightarrow>
          if nat k < length (dense_array a) then Inr (dense_array a ! nat k)
          else Inl PanicIndex)"

definition diag_Item :: "sparseDiagF64Matrix \<Rightarrow> int list \<Rightarrow> panic + float64" where
  "diag_Item d index =
     (if valid_coord (diag_shape d) index \<and> length index = 2 then
        (if index ! 0 = index ! 1 then
           (if nat (index ! 0) < length (diag_diag d) then Inr (diag_diag d ! nat (index ! 0))
            else Inl PanicIndex)
         else Inr (Finite 0))
      else Inl PanicIndex)"

fun Item :: "Matrix \<Rightarrow> int list \<Rightarrow> panic + float64" where
  "Item (DenseM a) index = dense_Item a index"
| "Item (CooM m) index = coo_Item m index"
| "Item (DiagM d) index = diag_Item d index"

text \<open>
  Modelled from the spec: \<^verbatim>\<open>ItemSet\<close> of the dense type, defined in a file that is not
  among the sources: the value is stored at flat index \<open>i * cols + j\<close> of the buffer.
\<close>

definition dense_ItemSet ::
  "denseF64Array \<Rightarrow> float64 \<Rightarrow> int list \<Rightarrow> panic + denseF64Array" where
  "dense_ItemSet a v index =
     (case ndToFlat (dense_shape a) index of
        Inl e \<Rightarrow> Inl e
      | Inr k \<Rightarrow>
          if nat k < length (dense_array a)
          then Inr (a\<lparr>dense_array := (dense_array a)[nat k := v]\<rparr>)
          else Inl PanicIndex)"

text \<open>The first panic of a sequence of results, or all their values.\<close>

fun collect :: "(panic + 'a) list \<Rightarrow> panic + 'a list" where
  "collect [] = Inr []"
| "collect (x # xs) =
     (case x of
        Inl e \<Rightarrow> Inl e
      | Inr v \<Rightarrow> (case collect xs of Inl e \<Rightarrow> Inl e | Inr vs \<Rightarrow> Inr (v # vs)))"

text \<open>
  Modelled from the spec: \<^verbatim>\<open>Array\<close>, defined in files that are not among the sources.
  The spec (\<open>toBackend\<close>): a fully dense, row-major copy of any representation, the
  sparse ones densified. The cell of flat index \<open>k\<close> is the element at the coordinate of
  \<open>k\<close>.
\<close>

definition cell :: "Matrix \<Rightarrow> int \<Rightarrow> panic + float64" where
  "cell m k = (case flatToNd (Shape m) k of Inl e \<Rightarrow> Inl e | Inr c \<Rightarrow> Item m c)"

definition Array :: "Matrix \<Rightarrow> panic + float64 list" where
  "Array m = collect (map (\<lambda>k. cell m (int k)) [0 ..< nat (prod_list (Shape m))])"

text \<open>
  The external backend's dense matrix, as far as the contract of the spec describes it:
  it is constructed from a row-major buffer and its dimensions (and refuses a buffer of
  another length), reports its dimensions, and reads an element by coordinate.
\<close>

record mat64_Dense =
  mat_rows :: int
  mat_cols :: int
  mat_data :: "float64 list"

definition mat64_NewDense :: "int \<Rightarrow> int \<Rightarrow> float64 list \<Rightarrow> panic + mat64_Dense" where
  "mat64_NewDense r c mat =
     (if r * c \<noteq> int (length mat) then Inl PanicShape
      else Inr \<lparr>mat_rows = r, mat_cols = c, mat_data = mat\<rparr>)"

definition mat64_Dims :: "mat64_Dense \<Rightarrow> int \<times> int" where
  "mat64_Dims m = (mat_rows m, mat_cols m)"

definition mat64_At :: "mat64_Dense \<Rightarrow> int \<Rightarrow> int \<Rightarrow> panic + float64" where
  "mat64_At m i j =
     (if 0 \<le> i \<and> i < mat_rows m \<and> 0 \<le> j \<and> j < mat_cols m \<and>
         nat (i * mat_cols m + j) < length (mat_data m)
      then Inr (mat_data m ! nat (i * mat_cols m + j))
      else Inl PanicIndex)"

text \<open>\<^verbatim>\<open>ToMat64\<close>: \<^verbatim>\<open>mat64.NewDense(m.Rows(), m.Cols(), m.Array())\<close>.\<close>

definition ToMat64 :: "Matrix \<Rightarrow> panic + mat64_Dense" where
  "ToMat64 m =
     (case Array m of
        Inl e \<Rightarrow> Inl e
      | Inr array \<Rightarrow> mat64_NewDense (Rows m) (Cols m) array)"

text \<open>
  \<^verbatim>\<open>ToMatrix\<close>: a dense array of the backend's dimensions, filled cell by cell by the two
  nested loops over \<open>i0\<close> and \<open>i1\<close>.
\<close>

function ToMatrix_row ::
  "mat64_Dense \<Rightarrow> int \<Rightarrow> int \<Rightarrow> int \<Rightarrow> denseF64Array \<Rightarrow> panic + denseF64Array" where
  "ToMatrix_row m cols i0 i1 array =
     (if i1 < cols then
        (case mat64_At m i0 i1 of
           Inl e \<Rightarrow> Inl e
         | Inr v \<Rightarrow>
             (case dense_ItemSet array v [i0, i1] of
                Inl e \<Rightarrow> Inl e
              | Inr array' \<Rightarrow> ToMatrix_row m cols i0 (i1 + 1) array'))
      else Inr array)"
  by pat_completeness auto
termination
  by (relation "measure (\<lambda>(m, cols, i0, i1, array). nat (cols - i1))") auto

function ToMatrix_rows ::
  "mat64_Dense \<Rightarrow> int \<Rightarrow> int \<Rightarrow> int \<Rightarrow> denseF64Array \<Rightarrow> panic + denseF64Array" where
  "ToMatrix_rows m rows cols i0 array =
     (if i0 < rows then
        (case ToMatrix_row m cols i0 0 array of
           Inl e \<Rightarrow> Inl e
         | Inr array' \<Rightarrow> ToMatrix_rows m rows cols (i0 + 1) array')
      else Inr array)"
  by pat_completeness auto
termination
  by (relation "measure (\<lambda>(m, rows, cols, i0, array). nat (rows - i0))") auto

declare ToMatrix_row.simps [simp del] ToMatrix_rows.simps [simp del]

definition ToMatrix :: "mat64_Dense \<Rightarrow> panic + Matrix" where
  "ToMatrix m =
     (case mat64_Dims m of
        (rows, cols) \<Rightarrow>
          (case make_slice (Finite 0) (rows * cols) of
             Inl e \<Rightarrow> Inl e
           | Inr buf \<Rightarrow>
               (case ToMatrix_rows m rows cols 0 \<lparr>dense_shape = [rows, cols], dense_array = buf\<rparr> of
                  Inl e \<Rightarrow> Inl e
                | Inr array \<Rightarrow> Inr (DenseM array))))"

text \<open>
  Well-formed matrices: a two-dimensional valid shape, and storage of the size the shape
  asks for.
\<close>

definition dense_wf :: "denseF64Array \<Rightarrow> bool" where
  "dense_wf a = (length (dense_shape a) = 2 \<and> valid_shape (dense_shape a) \<and>
                 length (dense_array a) = nat (prod_list (dense_shape a)))"

definition diag_wf :: "sparseDiagF64Matrix \<Rightarrow> bool" where
  "diag_wf d = (length (diag_shape d) = 2 \<and> valid_shape (diag_shape d) \<and>
                length (diag_diag d) = nat (min (diag_shape d ! 0) (diag_shape d ! 1)))"

fun wf_matrix :: "Matrix \<Rightarrow> bool" where
  "wf_matrix (DenseM a) = dense_wf a"
| "wf_matrix (CooM m) = coo_wf m"
| "wf_matrix (DiagM d) = diag_wf d"

lemma ndToFlat_2d:
  "0 \<le> i \<Longrightarrow> i < rows \<Longrightarrow> 0 \<le> j \<Longrightarrow> j < cols \<Longrightarrow>
   ndToFlat [rows, cols] [i, j] = Inr (i * cols + j)"
  by (simp add: ndToFlat_def valid_coord_def)

lemma flat_index_2d:
  assumes "0 \<le> i" "i < rows" "0 \<le> j" "j < cols"
  shows "0 \<le> i * cols + j \<and> i * cols + j < rows * cols \<and>
         flatToNd [rows, cols] (i * cols + j) = Inr [i, j]"
proof -
  have vc: "valid_coord [rows, cols] [i, j]" using assms by (simp add: valid_coord_def)
  from ndToFlat_flatToNd [OF vc] ndToFlat_2d [OF assms] show ?thesis by simp
qed

lemma wf_matrix_shape:
  assumes "wf_matrix m"
  obtains rows cols where "Shape m = [rows, cols]" "0 \<le> rows" "0 \<le> cols"
proof -
  from assms have l: "length (Shape m) = 2" and v: "valid_shape (Shape m)"
    by (cases m; simp add: dense_wf_def coo_wf_def diag_wf_def)+
  from l obtain rows cols where sh: "Shape m = [rows, cols]"
    by (cases "Shape m"; simp; cases "tl (Shape m)"; simp)
  with v have "0 \<le> rows" "0 \<le> cols" by (simp_all add: valid_shape_def)
  with sh that show thesis by blast
qed

lemma Item_valid:
  assumes wf: "wf_matrix m" and vc: "valid_coord (Shape m) c"
  shows "\<exists>v. Item m c = Inr v"
proof -
  from wf obtain rows cols where sh: "Shape m = [rows, cols]" by (rule wf_matrix_shape)
  from vc sh obtain i j where c: "c = [i, j]" and ij: "0 \<le> i" "i < rows" "0 \<le> j" "j < cols"
    by (auto simp: valid_coord_2d)
  show ?thesis
  proof (cases m)
    case (DenseM a)
    with sh wf have sa: "dense_shape a = [rows, cols]"
      and len: "length (dense_array a) = nat (rows * cols)" by (simp_all add: dense_wf_def)
    from flat_index_2d [OF ij] have "nat (i * cols + j) < nat (rows * cols)" by simp
    then show ?thesis using DenseM sa len c ndToFlat_2d [OF ij] by (simp add: dense_Item_def)
  next
    case (CooM s)
    with sh wf have ss: "coo_shape s = [rows, cols]"
      and len: "length (coo_values s) = nat rows" by (simp_all add: coo_wf_def)
    have "nat i < nat rows" using ij by simp
    then show ?thesis using CooM ss len c vc sh by (simp add: coo_Item_def)
  next
    case (DiagM d)
    with sh wf have sd: "diag_shape d = [rows, cols]"
      and len: "length (diag_diag d) = nat (min rows cols)" by (simp_all add: diag_wf_def)
    have "i = j \<Longrightarrow> nat i < nat (min rows cols)" using ij by simp
    then show ?thesis using DiagM sd len c vc sh by (simp add: diag_Item_def)
  qed
qed

lemma collect_map:
  "(\<And>x. x \<in> set xs \<Longrightarrow> \<exists>v. f x = Inr v) \<Longrightarrow>
   collect (map f xs) = Inr (map (\<lambda>x. projr (f x)) xs)"
proof (induction xs)
  case Nil
  show ?case by simp
next
  case (Cons x xs)
  from Cons.prems [of x] obtain v where v: "f x = Inr v" by auto
  have "collect (map f xs) = Inr (map (\<lambda>x. projr (f x)) xs)"
    by (rule Cons.IH) (simp add: Cons.prems)
  with v show ?case by simp
qed

lemma cell_valid:
  assumes wf: "wf_matrix m" and k: "0 \<le> k" "k < prod_list (Shape m)"
  shows "\<exists>v. cell m k = Inr v"
proof -
  from wf obtain rows cols where sh: "Shape m = [rows, cols]" and nn: "0 \<le> rows" "0 \<le> cols"
    by (rule wf_matrix_shape)
  have vs: "valid_shape (Shape m)" using sh nn by (simp add: valid_shape_def)
  from flatToNd_ndToFlat [OF vs k] obtain c where f: "flatToNd (Shape m) k = Inr c"
    and vc: "valid_coord (Shape m) c" by blast
  from Item_valid [OF wf vc] f show ?thesis by (simp add: cell_def)
qed

lemma Array_wf:
  assumes wf: "wf_matrix m"
  shows "\<exists>arr. Array m = Inr arr \<and> length arr = nat (prod_list (Shape m)) \<and>
           (\<forall>k. 0 \<le> k \<and> k < prod_list (Shape m) \<longrightarrow> cell m k = Inr (arr ! nat k))"
proof -
  let ?n = "nat (prod_list (Shape m))"
  let ?arr = "map (\<lambda>k. projr (cell m (int k))) [0 ..< ?n]"
  have ok: "\<exists>v. cell m (int x) = Inr v" if "x \<in> set [0 ..< ?n]" for x
  proof -
    from that have "0 \<le> int x" "int x < prod_list (Shape m)" by simp_all
    then show ?thesis by (rule cell_valid [OF wf])
  qed
  have a: "Array m = Inr ?arr" unfolding Array_def by (rule collect_map) (rule ok)
  have "cell m k = Inr (?arr ! nat k)" if k: "0 \<le> k \<and> k < prod_list (Shape m)" for k
  proof -
    from k have lt: "nat k < ?n" by simp
    from cell_valid [OF wf] k obtain v where v: "cell m k = Inr v" by blast
    have "?arr ! nat k = projr (cell m (int (nat k)))" using lt by simp
    also have "\<dots> = v" using k v by simp
    finally show ?thesis using v by simp
  qed
  with a show ?thesis by (intro exI [of _ ?arr]) simp
qed







lemma ToMat64_wf:
  assumes wf: "wf_matrix m" and sh: "Shape m = [rows, cols]"
  shows "\<exists>arr. ToMat64 m = Inr \<lparr>mat_rows = rows, mat_cols = cols, mat_data = arr\<rparr> \<and>
           length arr = nat (rows * cols) \<and>
           (\<forall>i j. 0 \<le> i \<and> i < rows \<and> 0 \<le> j \<and> j < cols \<longrightarrow>
                  Item m [i, j] = Inr (arr ! nat (i * cols + j)))"
proof -
  from wf sh have nn: "0 \<le> rows" "0 \<le> cols"
    by (auto elim: wf_matrix_shape)
  from Array_wf [OF wf] sh obtain arr where a: "Array m = Inr arr"
    and len: "length arr = nat (rows * cols)"
    and cells: "\<forall>k. 0 \<le> k \<and> k < rows * cols \<longrightarrow> cell m k = Inr (arr ! nat k)"
    by auto
  have "rows * cols = int (length arr)" using len nn by simp
  then have d: "ToMat64 m = Inr \<lparr>mat_rows = rows, mat_cols = cols, mat_data = arr\<rparr>"
    using a sh by (simp add: ToMat64_def mat64_NewDense_def Rows_def Cols_def)
  have "Item m [i, j] = Inr (arr ! nat (i * cols + j))"
    if ij: "0 \<le> i \<and> i < rows \<and> 0 \<le> j \<and> j < cols" for i j
  proof -
    from ij have h: "0 \<le> i" "i < rows" "0 \<le> j" "j < cols" by simp_all
    from flat_index_2d [OF h] have k: "0 \<le> i * cols + j \<and> i * cols + j < rows * cols"
      and f: "flatToNd [rows, cols] (i * cols + j) = Inr [i, j]" by simp_all
    from cells k have "cell m (i * cols + j) = Inr (arr ! nat (i * cols + j))" by blast
    then show ?thesis using f sh by (simp add: cell_def)
  qed
  with d len show ?thesis by blast
qed




subsection \<open>Inverse, LDivide and Solve\<close>

text \<open>
  A Go \<^verbatim>\<open>error\<close> value. The backend's inversion and linear solve are external: they are
  parameters of the model, and each either panics, returns an error, or returns a dense
  result.
\<close>

datatype error = Error string

type_synonym backend_inverse = "mat64_Dense \<Rightarrow> panic + (error + mat64_Dense)"

type_synonym backend_solve = "mat64_Dense \<Rightarrow> mat64_Dense \<Rightarrow> panic + (error + mat64_Dense)"

text \<open>
  \<^verbatim>\<open>Inverse\<close> returns the Go pair \<^verbatim>\<open>(Matrix, error)\<close>; \<open>None\<close> is \<^verbatim>\<open>nil\<close>.
\<close>

definition Inverse :: "backend_inverse \<Rightarrow> Matrix \<Rightarrow> panic + (Matrix option \<times> error option)" where
  "Inverse mat64_Inverse a =
     (case ToMat64 a of
        Inl p \<Rightarrow> Inl p
      | Inr d \<Rightarrow>
          (case mat64_Inverse d of
             Inl p \<Rightarrow> Inl p
           | Inr (Inl err) \<Rightarrow> Inr (None, Some err)
           | Inr (Inr x) \<Rightarrow>
               (case ToMatrix x of
                  Inl p \<Rightarrow> Inl p
                | Inr r \<Rightarrow> Inr (Some r, None))))"

text \<open>
  Modelled from the spec: \<^verbatim>\<open>WithValue\<close> and the conversion \<^verbatim>\<open>M\<close> of an array to a
  \<^verbatim>\<open>Matrix\<close>, defined in files that are not among the sources. The spec describes what
  \<^verbatim>\<open>LDivide\<close> builds with them: a matrix of the given shape filled with the given value in
  every cell.
\<close>

definition WithValue :: "float64 \<Rightarrow> int list \<Rightarrow> panic + denseF64Array" where
  "WithValue v shape =
     (if \<not> valid_shape shape then Inl PanicMakeLen
      else case make_slice v (prod_list shape) of
             Inl e \<Rightarrow> Inl e
           | Inr buf \<Rightarrow> Inr \<lparr>dense_shape = shape, dense_array = buf\<rparr>)"

definition NDArray_M :: "denseF64Array \<Rightarrow> panic + Matrix" where
  "NDArray_M a = (if length (dense_shape a) = 2 then Inr (DenseM a) else Inl PanicShape)"

definition LDivide :: "backend_solve \<Rightarrow> Matrix \<Rightarrow> Matrix \<Rightarrow> panic + Matrix" where
  "LDivide mat64_Solve a b =
     (case ToMat64 a of
        Inl p \<Rightarrow> Inl p
      | Inr da \<Rightarrow>
          (case ToMat64 b of
             Inl p \<Rightarrow> Inl p
           | Inr db \<Rightarrow>
               (case mat64_Solve da db of
                  Inl p \<Rightarrow> Inl p
                | Inr (Inl err) \<Rightarrow>
                    (case WithValue NaN [Shape a ! 0, Shape b ! 1] of
                       Inl p \<Rightarrow> Inl p
                     | Inr w \<Rightarrow> NDArray_M w)
                | Inr (Inr x) \<Rightarrow> ToMatrix x)))"

definition Solve :: "backend_solve \<Rightarrow> Matrix \<Rightarrow> Matrix \<Rightarrow> panic + Matrix" where
  "Solve mat64_Solve a b = LDivide mat64_Solve a b"

lemma wf_matrix_Rows_Cols:
  "wf_matrix m \<Longrightarrow> 0 \<le> Rows m \<and> 0 \<le> Cols m \<and> Shape m = [Rows m, Cols m]"
  by (erule wf_matrix_shape) (simp add: Rows_def Cols_def)

lemma ToMat64_succeeds:
  "wf_matrix m \<Longrightarrow> \<exists>d. ToMat64 m = Inr d"
proof -
  assume wf: "wf_matrix m"
  then have "Shape m = [Rows m, Cols m]" by (simp add: wf_matrix_Rows_Cols)
  from ToMat64_wf [OF wf this] show ?thesis by blast
qed

text \<open>
  C1. For every pair of well-formed matrices \<open>a\<close>, \<open>b\<close> on whose dense forms the
  backend's linear solve returns an error, \<open>LDivide(a, b)\<close> and \<open>Solve(a, b)\<close> return,
  without a panic, the dense matrix of shape (rows of \<open>a\<close>, columns of \<open>b\<close>) with NaN in
  every cell.
\<close>

theorem LDivide_unsolvable_gives_NaN:
  assumes "wf_matrix a" "wf_matrix b"
    and "ToMat64 a = Inr da" "ToMat64 b = Inr db" "mat64_Solve da db = Inr (Inl err)"
  shows "LDivide mat64_Solve a b =
           Inr (DenseM \<lparr>dense_shape = [Rows a, Cols b],
                        dense_array = replicate (nat (Rows a * Cols b)) NaN\<rparr>) \<and>
         Solve mat64_Solve a b = LDivide mat64_Solve a b \<and>
         (\<forall>i j. 0 \<le> i \<and> i < Rows a \<and> 0 \<le> j \<and> j < Cols b \<longrightarrow>
            Item (DenseM \<lparr>dense_shape = [Rows a, Cols b],
                          dense_array = replicate (nat (Rows a * Cols b)) NaN\<rparr>) [i, j] = Inr NaN)"
proof -
  let ?r = "\<lparr>dense_shape = [Rows a, Cols b],
             dense_array = replicate (nat (Rows a * Cols b)) NaN\<rparr>"
  from wf_matrix_Rows_Cols [OF assms(1)] have ra: "0 \<le> Rows a" and sa: "Shape a ! 0 = Rows a"
    by (simp_all add: Rows_def)
  from wf_matrix_Rows_Cols [OF assms(2)] have cb: "0 \<le> Cols b" and sb: "Shape b ! 1 = Cols b"
    by (simp_all add: Cols_def)
  have nn: "\<not> Rows a * Cols b < 0" using ra cb by (simp add: not_less)
  have w: "WithValue NaN [Shape a ! 0, Shape b ! 1] = Inr ?r"
    unfolding sa sb using ra cb nn by (simp add: WithValue_def valid_shape_def make_slice_def)
  have l: "LDivide mat64_Solve a b = Inr (DenseM ?r)"
    using assms(3-5) w by (simp add: LDivide_def NDArray_M_def)
  have "Item (DenseM ?r) [i, j] = Inr NaN"
    if ij: "0 \<le> i \<and> i < Rows a \<and> 0 \<le> j \<and> j < Cols b" for i j
  proof -
    from ij have h: "0 \<le> i" "i < Rows a" "0 \<le> j" "j < Cols b" by simp_all
    from flat_index_2d [OF h] have "nat (i * Cols b + j) < nat (Rows a * Cols b)" by simp
    then show ?thesis using ndToFlat_2d [OF h] by (simp add: dense_Item_def)
  qed
  with l show ?thesis by (simp add: Solve_def)
qed

theorem LDivide_unsolvable_gives_NaN_witness:
  "Solve (\<lambda>da db. Inr (Inl (Error ''singular'')))
     (DenseM \<lparr>dense_shape = [2, 2], dense_array = [Finite 1, Finite 2, Finite 2, Finite 4]\<rparr>)
     (DenseM \<lparr>dense_shape = [2, 1], dense_array = [Finite 1, Finite 1]\<rparr>) =
   Inr (DenseM \<lparr>dense_shape = [2, 1], dense_array = [NaN, NaN]\<rparr>)"
proof -
  let ?a = "DenseM \<lparr>dense_shape = [2, 2], dense_array = [Finite 1, Finite 2, Finite 2, Finite 4]\<rparr>"
  let ?b = "DenseM \<lparr>dense_shape = [2, 1], dense_array = [Finite 1, Finite 1]\<rparr>"
  let ?solve = "\<lambda>da db :: mat64_Dense. (Inr (Inl (Error ''singular'')) :: panic + (error + mat64_Dense))"
  have wa: "wf_matrix ?a" and wb: "wf_matrix ?b" by (simp_all add: dense_wf_def valid_shape_def)
  from ToMat64_succeeds [OF wa] obtain da where da: "ToMat64 ?a = Inr da" by blast
  from ToMat64_succeeds [OF wb] obtain db where db: "ToMat64 ?b = Inr db" by blast
  have s: "?solve da db = Inr (Inl (Error ''singular''))" by simp
  from LDivide_unsolvable_gives_NaN [OF wa wb da db s]
  show ?thesis by (simp add: Rows_def Cols_def numeral_2_eq_2)
qed

text \<open>
  C2. For every matrix \<open>a\<close> on whose dense form the backend's inversion returns an
  error, \<open>Inverse(a)\<close> returns that error and no matrix (\<^verbatim>\<open>nil\<close>): it does not panic
  and does not return a sentinel-filled matrix.
\<close>

theorem Inverse_singular_gives_error:
  assumes "ToMat64 a = Inr d" "mat64_Inverse d = Inr (Inl err)"
  shows "Inverse mat64_Inverse a = Inr (None, Some err)"
  using assms by (simp add: Inverse_def)

theorem Inverse_singular_gives_error_witness:
  "Inverse (\<lambda>d. Inr (Inl (Error ''singular'')))
     (DenseM \<lparr>dense_shape = [2, 2], dense_array = [Finite 1, Finite 2, Finite 2, Finite 4]\<rparr>) =
   Inr (None, Some (Error ''singular''))"
proof -
  let ?a = "DenseM \<lparr>dense_shape = [2, 2], dense_array = [Finite 1, Finite 2, Finite 2, Finite 4]\<rparr>"
  let ?inv = "\<lambda>d :: mat64_Dense. (Inr (Inl (Error ''singular'')) :: panic + (error + mat64_Dense))"
  have wa: "wf_matrix ?a" by (simp add: dense_wf_def valid_shape_def)
  from ToMat64_succeeds [OF wa] obtain d where d: "ToMat64 ?a = Inr d" by blast
  have "?inv d = Inr (Inl (Error ''singular''))" by simp
  from Inverse_singular_gives_error [OF d this] show ?thesis .
qed

subsection \<open>Conversion to the sparse-diagonal format\<close>

text \<open>
  Modelled from the spec: the method \<^verbatim>\<open>SparseDiag()\<close> of the \<^verbatim>\<open>Matrix\<close> interface.
  \<^verbatim>\<open>matrix.go\<close> declares it (``Return a sparse diag copy of the matrix. The method will
  panic if any off-diagonal elements are nonzero''); its implementations are in files
  that are not among the sources. The model reads every cell in row-major order and
  panics at a nonzero off-diagonal one, then reads the main diagonal and hands it to the
  constructor \<open>SparseDiag\<close>.
\<close>

definition offdiag_check :: "Matrix \<Rightarrow> int \<Rightarrow> panic + float64" where
  "offdiag_check m k =
     (case flatToNd (Shape m) k of
        Inl e \<Rightarrow> Inl e
      | Inr c \<Rightarrow>
          (case Item m c of
             Inl e \<Rightarrow> Inl e
           | Inr v \<Rightarrow>
               if c ! 0 \<noteq> c ! 1 \<and> v \<noteq> Finite 0 then Inl PanicOffDiagonal else Inr v))"

definition Matrix_SparseDiag :: "Matrix \<Rightarrow> panic + Matrix" where
  "Matrix_SparseDiag m =
     (case collect (map (\<lambda>k. offdiag_check m (int k)) [0 ..< nat (prod_list (Shape m))]) of
        Inl e \<Rightarrow> Inl e
      | Inr cells \<Rightarrow>
          (case collect (map (\<lambda>k. Item m [int k, int k])
                             [0 ..< nat (min (Rows m) (Cols m))]) of
             Inl e \<Rightarrow> Inl e
           | Inr diag \<Rightarrow>
               (case SparseDiag (Rows m) (Cols m) diag of
                  Inl e \<Rightarrow> Inl e
                | Inr d \<Rightarrow> Inr (DiagM d))))"

lemma collect_first_panic:
  "(\<And>x. x \<in> set xs \<Longrightarrow> f x = Inl e \<or> (\<exists>v. f x = Inr v)) \<Longrightarrow> \<exists>x \<in> set xs. f x = Inl e \<Longrightarrow>
   collect (map f xs) = Inl e"
proof (induction xs)
  case Nil
  then show ?case by simp
next
  case (Cons x xs)
  show ?case
  proof (cases "f x")
    case (Inl e')
    with Cons.prems(1) [of x] show ?thesis by auto
  next
    case (Inr v)
    with Cons.prems(2) have ex: "\<exists>x \<in> set xs. f x = Inl e" by auto
    have "collect (map f xs) = Inl e"
      by (rule Cons.IH) (simp_all add: Cons.prems(1) ex)
    with Inr show ?thesis by simp
  qed
qed

lemma offdiag_check_cases:
  assumes wf: "wf_matrix m" and sh: "Shape m = [rows, cols]"
    and ij: "0 \<le> i" "i < rows" "0 \<le> j" "j < cols"
  shows "\<exists>v. Item m [i, j] = Inr v \<and>
           offdiag_check m (i * cols + j) =
             (if i \<noteq> j \<and> v \<noteq> Finite 0 then Inl PanicOffDiagonal else Inr v)"
proof -
  have vc: "valid_coord (Shape m) [i, j]" using sh ij by (simp add: valid_coord_def)
  from Item_valid [OF wf vc] obtain v where v: "Item m [i, j] = Inr v" by blast
  from flat_index_2d [OF ij] have "flatToNd [rows, cols] (i * cols + j) = Inr [i, j]" by simp
  with v sh show ?thesis by (simp add: offdiag_check_def)
qed

lemma flat_index_coord:
  assumes "0 \<le> (rows::int)" "0 \<le> cols" "0 \<le> k" "k < rows * cols"
  obtains i j where "0 \<le> i" "i < rows" "0 \<le> j" "j < cols" "k = i * cols + j"
proof -
  have vs: "valid_shape [rows, cols]" using assms(1,2) by (simp add: valid_shape_def)
  from flatToNd_ndToFlat [OF vs assms(3)] assms(4)
  obtain c where vc: "valid_coord [rows, cols] c" and n: "ndToFlat [rows, cols] c = Inr k"
    by auto
  from vc obtain i j where c: "c = [i, j]" and ij: "0 \<le> i" "i < rows" "0 \<le> j" "j < cols"
    by (auto simp: valid_coord_2d)
  from n c ndToFlat_2d [OF ij] have "k = i * cols + j" by simp
  with ij that show thesis by blast
qed

lemma Matrix_SparseDiag_offdiagonal:
  assumes wf: "wf_matrix m"
    and bad: "0 \<le> i" "i < Rows m" "0 \<le> j" "j < Cols m" "i \<noteq> j" "Item m [i, j] \<noteq> Inr (Finite 0)"
  shows "Matrix_SparseDiag m = Inl PanicOffDiagonal"
proof -
  from wf_matrix_Rows_Cols [OF wf] have nn: "0 \<le> Rows m" "0 \<le> Cols m"
    and sh: "Shape m = [Rows m, Cols m]" by simp_all
  let ?n = "nat (prod_list (Shape m))"
  let ?f = "\<lambda>k. offdiag_check m (int k)"
  have each: "?f x = Inl PanicOffDiagonal \<or> (\<exists>v. ?f x = Inr v)" if "x \<in> set [0 ..< ?n]" for x
  proof -
    from that sh have k: "0 \<le> int x" "int x < Rows m * Cols m" by simp_all
    from flat_index_coord [OF nn k] obtain i' j' where ij': "0 \<le> i'" "i' < Rows m" "0 \<le> j'"
      "j' < Cols m" and x: "int x = i' * Cols m + j'" by blast
    from offdiag_check_cases [OF wf sh ij'] x show ?thesis by auto
  qed
  from flat_index_2d [OF bad(1-4)] have k: "0 \<le> i * Cols m + j" "i * Cols m + j < Rows m * Cols m"
    by simp_all
  from offdiag_check_cases [OF wf sh bad(1-4)] bad(5,6)
  have "offdiag_check m (i * Cols m + j) = Inl PanicOffDiagonal" by auto
  then have "?f (nat (i * Cols m + j)) = Inl PanicOffDiagonal" using k by simp
  moreover have "nat (i * Cols m + j) \<in> set [0 ..< ?n]" using k sh by simp
  ultimately have "\<exists>x \<in> set [0 ..< ?n]. ?f x = Inl PanicOffDiagonal" by blast
  with each have "collect (map ?f [0 ..< ?n]) = Inl PanicOffDiagonal"
    by (rule collect_first_panic)
  then show ?thesis by (simp add: Matrix_SparseDiag_def)
qed

lemma Matrix_SparseDiag_diagonal:
  assumes wf: "wf_matrix m"
    and zero: "\<And>i j. 0 \<le> i \<Longrightarrow> i < Rows m \<Longrightarrow> 0 \<le> j \<Longrightarrow> j < Cols m \<Longrightarrow> i \<noteq> j \<Longrightarrow>
                 Item m [i, j] = Inr (Finite 0)"
  shows "\<exists>d. Matrix_SparseDiag m = Inr (DiagM d) \<and> diag_wf d \<and> diag_shape d = Shape m \<and>
           (\<forall>k. 0 \<le> k \<and> k < min (Rows m) (Cols m) \<longrightarrow> Item (DiagM d) [k, k] = Item m [k, k])"
proof -
  from wf_matrix_Rows_Cols [OF wf] have nn: "0 \<le> Rows m" "0 \<le> Cols m"
    and sh: "Shape m = [Rows m, Cols m]" by simp_all
  let ?n = "nat (prod_list (Shape m))"
  let ?f = "\<lambda>k. offdiag_check m (int k)"
  have each: "\<exists>v. ?f x = Inr v" if "x \<in> set [0 ..< ?n]" for x
  proof -
    from that sh have k: "0 \<le> int x" "int x < Rows m * Cols m" by simp_all
    from flat_index_coord [OF nn k] obtain i j where ij: "0 \<le> i" "i < Rows m" "0 \<le> j"
      "j < Cols m" and x: "int x = i * Cols m + j" by blast
    from offdiag_check_cases [OF wf sh ij] obtain v where v: "Item m [i, j] = Inr v"
      and c: "offdiag_check m (i * Cols m + j) =
                (if i \<noteq> j \<and> v \<noteq> Finite 0 then Inl PanicOffDiagonal else Inr v)" by blast
    have "i \<noteq> j \<longrightarrow> v = Finite 0" using zero [OF ij] v by simp
    with c x show ?thesis by auto
  qed
  have c1: "collect (map ?f [0 ..< ?n]) = Inr (map (\<lambda>x. projr (?f x)) [0 ..< ?n])"
    by (rule collect_map) (rule each)
  let ?s = "nat (min (Rows m) (Cols m))"
  let ?g = "\<lambda>k. Item m [int k, int k]"
  let ?diag = "map (\<lambda>x. projr (?g x)) [0 ..< ?s]"
  have onD: "\<exists>v. ?g x = Inr v" if "x \<in> set [0 ..< ?s]" for x
  proof -
    from that have "x < nat (min (Rows m) (Cols m))" by simp
    then have "int x < Rows m" "int x < Cols m" by linarith+
    then have "valid_coord [Rows m, Cols m] [int x, int x]" by (simp add: valid_coord_def)
    then have "valid_coord (Shape m) [int x, int x]" using sh by simp
    then show ?thesis by (rule Item_valid [OF wf])
  qed
  have c2: "collect (map ?g [0 ..< ?s]) = Inr ?diag"
    by (rule collect_map) (rule onD)
  have "0 \<le> min (Rows m) (Cols m)" using nn by linarith
  then have fits: "int (length ?diag) \<le> min (Rows m) (Cols m)" by simp
  let ?d = "\<lparr>diag_shape = [Rows m, Cols m], diag_diag = ?diag\<rparr>"
  have sd: "SparseDiag (Rows m) (Cols m) ?diag = Inr ?d"
    using SparseDiag_fits [OF fits] by simp
  have r: "Matrix_SparseDiag m = Inr (DiagM ?d)"
    using c1 c2 sd by (simp add: Matrix_SparseDiag_def)
  have wfd: "diag_wf ?d" using nn by (simp add: diag_wf_def valid_shape_def)
  have "Item (DiagM ?d) [k, k] = Item m [k, k]"
    if k: "0 \<le> k \<and> k < min (Rows m) (Cols m)" for k
  proof -
    from k have lt: "nat k < ?s" by linarith
    from k have kr: "k < Rows m" "k < Cols m" by linarith+
    have "nat k \<in> set [0 ..< ?s]" using lt by simp
    from onD [OF this] k obtain v where v: "Item m [k, k] = Inr v" by auto
    have "?diag ! nat k = projr (?g (nat k))" using lt by simp
    also have "\<dots> = v" using k v by simp
    finally have "?diag ! nat k = v" .
    moreover have "valid_coord [Rows m, Cols m] [k, k]" using k kr by (simp add: valid_coord_def)
    ultimately have "Item (DiagM ?d) [k, k] = Inr v" using lt by (simp add: diag_Item_def)
    with v show ?thesis by simp
  qed
  with r wfd sh show ?thesis by (intro exI [of _ ?d]) simp
qed

text \<open>
  C5. For every well-formed matrix whose off-diagonal cells are all zero, the
  \<open>SparseDiag()\<close> conversion returns a sparse-diagonal copy of the same shape carrying
  the same main-diagonal values; for every well-formed matrix with at least one nonzero
  off-diagonal cell, \<open>SparseDiag()\<close> fails fatally.
\<close>

theorem Matrix_SparseDiag_conversion:
  assumes "wf_matrix m"
  shows "((\<forall>i j. 0 \<le> i \<and> i < Rows m \<and> 0 \<le> j \<and> j < Cols m \<and> i \<noteq> j \<longrightarrow>
             Item m [i, j] = Inr (Finite 0)) \<longrightarrow>
          (\<exists>d. Matrix_SparseDiag m = Inr (DiagM d) \<and> diag_wf d \<and> diag_shape d = Shape m \<and>
               (\<forall>k. 0 \<le> k \<and> k < min (Rows m) (Cols m) \<longrightarrow>
                      Item (DiagM d) [k, k] = Item m [k, k]))) \<and>
         ((\<exists>i j. 0 \<le> i \<and> i < Rows m \<and> 0 \<le> j \<and> j < Cols m \<and> i \<noteq> j \<and>
              Item m [i, j] \<noteq> Inr (Finite 0)) \<longrightarrow>
          Matrix_SparseDiag m = Inl PanicOffDiagonal)"
proof (intro conjI impI)
  assume z: "\<forall>i j. 0 \<le> i \<and> i < Rows m \<and> 0 \<le> j \<and> j < Cols m \<and> i \<noteq> j \<longrightarrow>
               Item m [i, j] = Inr (Finite 0)"
  show "\<exists>d. Matrix_SparseDiag m = Inr (DiagM d) \<and> diag_wf d \<and> diag_shape d = Shape m \<and>
          (\<forall>k. 0 \<le> k \<and> k < min (Rows m) (Cols m) \<longrightarrow> Item (DiagM d) [k, k] = Item m [k, k])"
    by (rule Matrix_SparseDiag_diagonal [OF assms]) (simp add: z)
next
  assume "\<exists>i j. 0 \<le> i \<and> i < Rows m \<and> 0 \<le> j \<and> j < Cols m \<and> i \<noteq> j \<and>
            Item m [i, j] \<noteq> Inr (Finite 0)"
  then obtain i j where "0 \<le> i" "i < Rows m" "0 \<le> j" "j < Cols m" "i \<noteq> j"
    "Item m [i, j] \<noteq> Inr (Finite 0)" by blast
  then show "Matrix_SparseDiag m = Inl PanicOffDiagonal"
    by (rule Matrix_SparseDiag_offdiagonal [OF assms])
qed

theorem Matrix_SparseDiag_conversion_witness:
  "(\<exists>d. Matrix_SparseDiag
          (CooM \<lparr>coo_shape = [2, 2], coo_values = [[0 \<mapsto> Finite 1], [1 \<mapsto> Finite 2]]\<rparr>) =
            Inr (DiagM d) \<and>
        Item (DiagM d) [0, 0] = Inr (Finite 1) \<and> Item (DiagM d) [1, 1] = Inr (Finite 2)) \<and>
   Matrix_SparseDiag
     (CooM \<lparr>coo_shape = [2, 2], coo_values = [[0 \<mapsto> Finite 1, 1 \<mapsto> Finite 1], [1 \<mapsto> Finite 2]]\<rparr>) =
       Inl PanicOffDiagonal"
proof -
  let ?m1 = "CooM \<lparr>coo_shape = [2, 2], coo_values = [[0 \<mapsto> Finite 1], [1 \<mapsto> Finite 2]]\<rparr>"
  let ?m2 = "CooM \<lparr>coo_shape = [2, 2],
                   coo_values = [[0 \<mapsto> Finite 1, 1 \<mapsto> Finite 1], [1 \<mapsto> Finite 2]]\<rparr>"
  have wf1: "wf_matrix ?m1" and wf2: "wf_matrix ?m2" by (simp_all add: coo_wf_def valid_shape_def)
  have rc1: "Rows ?m1 = 2" "Cols ?m1 = 2" and rc2: "Rows ?m2 = 2" "Cols ?m2 = 2"
    by (simp_all add: Rows_def Cols_def)
  have z: "\<forall>i j. 0 \<le> i \<and> i < Rows ?m1 \<and> 0 \<le> j \<and> j < Cols ?m1 \<and> i \<noteq> j \<longrightarrow>
             Item ?m1 [i, j] = Inr (Finite 0)"
  proof (intro allI impI)
    fix i j :: int
    assume a: "0 \<le> i \<and> i < Rows ?m1 \<and> 0 \<le> j \<and> j < Cols ?m1 \<and> i \<noteq> j"
    then have "(i = 0 \<and> j = 1) \<or> (i = 1 \<and> j = 0)" unfolding rc1 by arith
    then show "Item ?m1 [i, j] = Inr (Finite 0)"
      by (auto simp: coo_Item_def valid_coord_def)
  qed
  have i1: "Item ?m1 [0, 0] = Inr (Finite 1)" "Item ?m1 [1, 1] = Inr (Finite 2)"
    by (simp_all add: coo_Item_def valid_coord_def)
  have nz: "\<exists>i j. 0 \<le> i \<and> i < Rows ?m2 \<and> 0 \<le> j \<and> j < Cols ?m2 \<and> i \<noteq> j \<and>
              Item ?m2 [i, j] \<noteq> Inr (Finite 0)"
    unfolding rc2
    by (intro exI [of _ 0] exI [of _ 1]) (simp add: coo_Item_def valid_coord_def)
  from Matrix_SparseDiag_conversion [OF wf1] z
  obtain d where r: "Matrix_SparseDiag ?m1 = Inr (DiagM d)"
    and items: "\<forall>k. 0 \<le> k \<and> k < min (Rows ?m1) (Cols ?m1) \<longrightarrow>
                  Item (DiagM d) [k, k] = Item ?m1 [k, k]"
    by blast
  from items rc1 i1 have "Item (DiagM d) [0, 0] = Inr (Finite 1)"
    "Item (DiagM d) [1, 1] = Inr (Finite 2)" by simp_all
  with r have 1: "\<exists>d. Matrix_SparseDiag ?m1 = Inr (DiagM d) \<and>
        Item (DiagM d) [0, 0] = Inr (Finite 1) \<and> Item (DiagM d) [1, 1] = Inr (Finite 2)" by blast
  from Matrix_SparseDiag_conversion [OF wf2] nz
  have 2: "Matrix_SparseDiag ?m2 = Inl PanicOffDiagonal" by blast
  from 1 2 show ?thesis by blast
qed

section \<open>Randomized sparse population\<close>

text \<open>
  Go's \<^verbatim>\<open>int\<close> is 64 bits wide: the product \<^verbatim>\<open>rows * cols\<close> wraps around.
\<close>

definition go_int :: "int \<Rightarrow> int" where
  "go_int x = (x + 2 ^ 63) mod 2 ^ 64 - 2 ^ 63"

text \<open>
  The target count is \<^verbatim>\<open>int(float64(size) * density)\<close>: the conversion of \<open>size\<close> and
  the product are each rounded to the nearest float64 (ties to even, 53 bits of
  precision, subnormal steps of \<open>2 ^ -1074\<close>), and the conversion to \<^verbatim>\<open>int\<close> truncates
  towards zero. A finite float64 is the rational it denotes. With \<open>\<bar>size\<bar> \<le> 2 ^ 63\<close> and
  \<open>0 \<le> density < 1\<close> nothing overflows. The density is a finite float64: an infinite
  one fails the density check like any other value outside \<open>[0, 1)\<close>; NaN, which passes
  the check and whose conversion to \<^verbatim>\<open>int\<close> Go leaves to the implementation, is left out.
\<close>

function ilog2 :: "int \<Rightarrow> int" where
  "ilog2 n = (if n < 2 then 0 else 1 + ilog2 (n div 2))"
  by pat_completeness auto
termination
  by (relation "measure nat") auto

declare ilog2.simps [simp del]

definition pow2 :: "int \<Rightarrow> rat" where
  "pow2 e = (if 0 \<le> e then 2 ^ nat e else 1 / 2 ^ nat (- e))"

text \<open>For \<open>x > 0\<close>, the exponent \<open>e\<close> with \<open>2 ^ e \<le> x < 2 ^ (e + 1)\<close>.\<close>

definition float_exponent :: "rat \<Rightarrow> int" where
  "float_exponent x =
     (case quotient_of x of
        (a, b) \<Rightarrow>
          let e0 = ilog2 a - ilog2 b
          in if pow2 e0 \<le> x then e0 else e0 - 1)"

definition round_even :: "rat \<Rightarrow> int" where
  "round_even x =
     (let f = \<lfloor>x\<rfloor>; r = x - of_int f
      in if r < 1 / 2 then f else if 1 / 2 < r then f + 1 else if even f then f else f + 1)"

definition round_f64 :: "rat \<Rightarrow> rat" where
  "round_f64 x =
     (if x = 0 then 0
      else
        let u = pow2 (max (float_exponent \<bar>x\<bar> - 52) (- 1074))
        in of_int (round_even (x / u)) * u)"

definition trunc_zero :: "rat \<Rightarrow> int" where
  "trunc_zero x = (if 0 \<le> x then \<lfloor>x\<rfloor> else \<lceil>x\<rceil>)"

definition target_count :: "int \<Rightarrow> rat \<Rightarrow> int" where
  "target_count size' density = trunc_zero (round_f64 (round_f64 (of_int size') * density))"

text \<open>
  The process-wide random generator is an explicit tape of the values its calls return,
  in the order of the calls: \<^verbatim>\<open>rand.Intn(n)\<close> returns the next integer draw reduced into
  \<open>[0, n)\<close> and panics when \<open>n \<le> 0\<close>, \<^verbatim>\<open>rand.Float64()\<close> and \<^verbatim>\<open>rand.NormFloat64()\<close>
  return the next value of their tapes. A run that needs a draw past the end of a tape
  has not finished: its result is \<open>None\<close>.
\<close>

record rng =
  intn_draws :: "nat list"
  float64_draws :: "float64 list"
  norm_draws :: "float64 list"

text \<open>
  The inner loop: draw flat indices until the cell drawn reads zero, then store the
  next value there. It returns the rest of the two tapes and the matrix. The matrix is
  the one \<open>SparseCoo\<close> returned, so \<^verbatim>\<open>Item\<close> and \<^verbatim>\<open>ItemSet\<close> are those of the
  sparse-coordinate type.
\<close>

fun place_one ::
  "int list \<Rightarrow> int \<Rightarrow> nat list \<Rightarrow> float64 list \<Rightarrow> sparseCooF64Matrix \<Rightarrow>
   (panic + nat list \<times> float64 list \<times> sparseCooF64Matrix) option" where
  "place_one shape size' [] vs matrix = (if size' \<le> 0 then Some (Inl PanicIntn) else None)"
| "place_one shape size' (r # rs) vs matrix =
     (if size' \<le> 0 then Some (Inl PanicIntn)
      else
        case flatToNd shape (int r mod size') of
          Inl e \<Rightarrow> Some (Inl e)
        | Inr coord \<Rightarrow>
            (case coo_Item matrix coord of
               Inl e \<Rightarrow> Some (Inl e)
             | Inr x \<Rightarrow>
                 if x = Finite 0 then
                   (case vs of
                      [] \<Rightarrow> None
                    | v # vs' \<Rightarrow>
                        (case coo_ItemSet matrix v coord of
                           Inl e \<Rightarrow> Some (Inl e)
                         | Inr matrix' \<Rightarrow> Some (Inr (rs, vs', matrix'))))
                 else place_one shape size' rs vs matrix))"

text \<open>The outer loop \<^verbatim>\<open>for i := 0; i < count; i++\<close>, by the iterations left.\<close>

fun populate ::
  "int list \<Rightarrow> int \<Rightarrow> nat \<Rightarrow> nat list \<Rightarrow> float64 list \<Rightarrow> sparseCooF64Matrix \<Rightarrow>
   (panic + sparseCooF64Matrix) option" where
  "populate shape size' 0 rs vs matrix = Some (Inr matrix)"
| "populate shape size' (Suc n) rs vs matrix =
     (case place_one shape size' rs vs matrix of
        None \<Rightarrow> None
      | Some (Inl e) \<Rightarrow> Some (Inl e)
      | Some (Inr (rs', vs', matrix')) \<Rightarrow> populate shape size' n rs' vs' matrix')"

definition SparseRand :: "int \<Rightarrow> int \<Rightarrow> rat \<Rightarrow> rng \<Rightarrow> (panic + Matrix) option" where
  "SparseRand rows cols density g =
     (if density < 0 \<or> density \<ge> 1 then Some (Inl PanicDensity)
      else
        (case SparseCoo rows cols [] of
           Inl e \<Rightarrow> Some (Inl e)
         | Inr matrix \<Rightarrow>
             (let shape = [rows, cols];
                  size' = go_int (rows * cols);
                  count = target_count size' density
              in (case populate shape size' (nat count) (intn_draws g) (float64_draws g) matrix of
                    None \<Rightarrow> None
                  | Some (Inl e) \<Rightarrow> Some (Inl e)
                  | Some (Inr m) \<Rightarrow> Some (Inr (CooM m))))))"

definition SparseRandN :: "int \<Rightarrow> int \<Rightarrow> rat \<Rightarrow> rng \<Rightarrow> (panic + Matrix) option" where
  "SparseRandN rows cols density g =
     (if density < 0 \<or> density \<ge> 1 then Some (Inl PanicDensity)
      else
        (case SparseCoo rows cols [] of
           Inl e \<Rightarrow> Some (Inl e)
         | Inr matrix \<Rightarrow>
             (let shape = [rows, cols];
                  size' = go_int (rows * cols);
                  count = target_count size' density
              in (case populate shape size' (nat count) (intn_draws g) (norm_draws g) matrix of
                    None \<Rightarrow> None
                  | Some (Inl e) \<Rightarrow> Some (Inl e)
                  | Some (Inr m) \<Rightarrow> Some (Inr (CooM m))))))"


text \<open>The value a sparse-coordinate matrix reads at a flat index, and its nonzero cells.\<close>

definition coo_read :: "sparseCooF64Matrix \<Rightarrow> int \<Rightarrow> float64" where
  "coo_read m k = (case coo_entry_at m k of None \<Rightarrow> Finite 0 | Some v \<Rightarrow> v)"

definition nonzero_cells :: "sparseCooF64Matrix \<Rightarrow> nat set" where
  "nonzero_cells m = {k. k < nat (prod_list (coo_shape m)) \<and> coo_read m (int k) \<noteq> Finite 0}"


lemma go_int_id: "- (2 ^ 63) \<le> x \<Longrightarrow> x < 2 ^ 63 \<Longrightarrow> go_int x = x"
  by (simp add: go_int_def)

lemma pow2_pos: "0 < pow2 e"
  by (simp add: pow2_def)

lemma round_even_nonpos: "x \<le> 0 \<Longrightarrow> round_even x \<le> 0"
proof -
  assume x: "x \<le> 0"
  have f: "\<lfloor>x\<rfloor> \<le> 0" using x by (simp add: floor_le_iff)
  show ?thesis
  proof (cases "\<lfloor>x\<rfloor> = 0")
    case True
    then have "0 \<le> x" by (simp add: floor_eq_iff)
    with x have "x = 0" by simp
    then show ?thesis by (simp add: round_even_def)
  next
    case False
    with f have "\<lfloor>x\<rfloor> + 1 \<le> 0" by linarith
    with f show ?thesis by (simp add: round_even_def Let_def)
  qed
qed

lemma round_f64_nonpos: "x \<le> 0 \<Longrightarrow> round_f64 x \<le> 0"
proof -
  assume x: "x \<le> 0"
  let ?u = "pow2 (max (float_exponent \<bar>x\<bar> - 52) (- 1074))"
  have "x / ?u \<le> 0" using x pow2_pos [of "max (float_exponent \<bar>x\<bar> - 52) (- 1074)"]
    by (simp add: divide_nonpos_pos)
  then have "round_even (x / ?u) \<le> 0" by (rule round_even_nonpos)
  then have "of_int (round_even (x / ?u)) * ?u \<le> 0"
    using pow2_pos [of "max (float_exponent \<bar>x\<bar> - 52) (- 1074)"]
    by (simp add: mult_le_0_iff)
  then show ?thesis by (simp add: round_f64_def Let_def)
qed

lemma trunc_zero_nonpos: "x \<le> 0 \<Longrightarrow> trunc_zero x \<le> 0"
  by (auto simp: trunc_zero_def ceiling_le_iff)

lemma target_count_pos_size:
  assumes "0 \<le> density" "0 < target_count size' density"
  shows "0 < size'"
proof (rule ccontr)
  assume "\<not> 0 < size'"
  then have "(of_int size' :: rat) \<le> 0" by simp
  then have "round_f64 (of_int size') \<le> 0" by (rule round_f64_nonpos)
  then have "round_f64 (of_int size') * density \<le> 0"
    using assms(1) by (simp add: mult_nonpos_nonneg)
  then have "round_f64 (round_f64 (of_int size') * density) \<le> 0" by (rule round_f64_nonpos)
  then have "target_count size' density \<le> 0" unfolding target_count_def by (rule trunc_zero_nonpos)
  with assms(2) show False by simp
qed


lemma ilog2_bounds:
  "1 \<le> n \<Longrightarrow> 0 \<le> ilog2 n \<and> 2 ^ nat (ilog2 n) \<le> n \<and> n < 2 ^ nat (ilog2 n + 1)"
proof (induction n rule: ilog2.induct)
  case (1 n)
  show ?case
  proof (cases "n < 2")
    case True
    with "1.prems" have "n = 1" by simp
    then show ?thesis by (simp add: ilog2.simps)
  next
    case False
    then have h: "1 \<le> n div 2" by simp
    from "1.IH" [OF False h] have nn: "0 \<le> ilog2 (n div 2)"
      and lo: "2 ^ nat (ilog2 (n div 2)) \<le> n div 2"
      and hi: "n div 2 < 2 ^ nat (ilog2 (n div 2) + 1)" by simp_all
    have e: "ilog2 n = 1 + ilog2 (n div 2)" using False by (subst ilog2.simps) simp
    have s1: "nat (1 + ilog2 (n div 2)) = Suc (nat (ilog2 (n div 2)))" using nn by simp
    have s2: "nat (1 + ilog2 (n div 2) + 1) = Suc (nat (ilog2 (n div 2) + 1))" using nn by simp
    have "2 * (n div 2) \<le> n" by simp
    with lo have a: "2 ^ nat (ilog2 n) \<le> n" unfolding e s1 by simp
    have "n < 2 * (n div 2 + 1)" by simp
    moreover have "n div 2 + 1 \<le> 2 ^ nat (ilog2 (n div 2) + 1)" using hi by simp
    ultimately have b: "n < 2 ^ nat (ilog2 n + 1)" unfolding e s2 by simp
    from a b nn e show ?thesis by simp
  qed
qed

lemma pow2_nonneg_exp: "0 \<le> e \<Longrightarrow> pow2 e = 2 ^ nat e"
  by (simp add: pow2_def)

lemma pow2_add: "pow2 (a + b) = pow2 a * pow2 b"
proof -
  have p: "pow2 e = 2 powi e" for e
    by (simp add: pow2_def power_int_def inverse_eq_divide power_one_over)
  show ?thesis unfolding p by (simp add: power_int_add)
qed

lemma pow2_mono: "a \<le> b \<Longrightarrow> pow2 a \<le> pow2 b"
proof -
  assume "a \<le> b"
  then have "pow2 b = pow2 a * pow2 (b - a)" using pow2_add [of a "b - a"] by simp
  moreover have "1 \<le> pow2 (b - a)" using \<open>a \<le> b\<close> by (simp add: pow2_def)
  ultimately show ?thesis using pow2_pos [of a] by simp
qed

lemma float_exponent_le:
  assumes "0 < x"
  shows "pow2 (float_exponent x) \<le> x"
proof -
  obtain a b where q: "quotient_of x = (a, b)" by (cases "quotient_of x")
  from quotient_of_denom_pos [OF q] have b: "0 < b" .
  from quotient_of_div [OF q] have x: "x = of_int a / of_int b" .
  have a: "0 < a"
  proof (rule ccontr)
    assume "\<not> 0 < a"
    then have "(of_int a :: rat) \<le> 0" by simp
    then have "x \<le> 0" unfolding x using b by (simp add: divide_le_0_iff)
    with assms show False by simp
  qed
  let ?e0 = "ilog2 a - ilog2 b"
  have fe: "float_exponent x = (if pow2 ?e0 \<le> x then ?e0 else ?e0 - 1)"
    by (simp add: float_exponent_def q Let_def)
  show ?thesis
  proof (cases "pow2 ?e0 \<le> x")
    case True
    with fe show ?thesis by simp
  next
    case False
    from ilog2_bounds [of a] a have la: "0 \<le> ilog2 a" "2 ^ nat (ilog2 a) \<le> a" by simp_all
    from ilog2_bounds [of b] b have lb: "0 \<le> ilog2 b" "b < 2 ^ nat (ilog2 b + 1)" by simp_all
    have pa: "pow2 (ilog2 a) \<le> of_int a"
    proof -
      have "(of_int (2 ^ nat (ilog2 a)) :: rat) \<le> of_int a" using la(2) by (simp only: of_int_le_iff)
      then show ?thesis using la(1) by (simp add: pow2_nonneg_exp)
    qed
    have pb: "of_int b \<le> pow2 (ilog2 b + 1)"
    proof -
      have "b \<le> 2 ^ nat (ilog2 b + 1)" using lb(2) by simp
      then have "(of_int b :: rat) \<le> of_int (2 ^ nat (ilog2 b + 1))"
        by (simp only: of_int_le_iff)
      then show ?thesis using lb(1) by (simp add: pow2_nonneg_exp)
    qed
    have "pow2 (?e0 - 1) * of_int b \<le> pow2 (?e0 - 1) * pow2 (ilog2 b + 1)"
      using pb pow2_pos [of "?e0 - 1"] by (simp add: mult_left_mono)
    also have "\<dots> = pow2 (ilog2 a)" using pow2_add [of "?e0 - 1" "ilog2 b + 1"] by simp
    also have "\<dots> \<le> of_int a" by (rule pa)
    finally have "pow2 (?e0 - 1) \<le> of_int a / of_int b" using b by (simp add: pos_le_divide_eq)
    with fe False x show ?thesis by simp
  qed
qed

lemma float_exponent_small:
  assumes "0 < x" "x < 2 ^ 53"
  shows "float_exponent x \<le> 52"
proof (rule ccontr)
  assume "\<not> float_exponent x \<le> 52"
  then have "53 \<le> float_exponent x" by simp
  then have "pow2 53 \<le> pow2 (float_exponent x)" by (rule pow2_mono)
  also have "\<dots> \<le> x" using assms(1) by (rule float_exponent_le)
  finally have "pow2 53 \<le> x" .
  moreover have "pow2 53 = 2 ^ 53" by (simp add: pow2_def)
  ultimately show False using assms(2) by simp
qed


lemma round_even_of_int: "round_even (of_int k) = k"
  by (simp add: round_even_def)

text \<open>
  Below \<open>2 ^ 53\<close> the float64 grid contains every integer, so rounding moves a value
  no further than to one of the two integers around it, and leaves an integer alone.
\<close>

lemma round_f64_scale:
  assumes "0 < x" "x < 2 ^ 53"
  shows "\<exists>K::int. 0 < K \<and> round_f64 x = of_int (round_even (x * of_int K)) / of_int K"
proof -
  let ?j = "max (float_exponent \<bar>x\<bar> - 52) (- 1074)"
  have ax: "\<bar>x\<bar> = x" using assms(1) by simp
  have j: "?j \<le> 0" using float_exponent_small [OF assms] ax by simp
  let ?K = "2 ^ nat (- ?j) :: int"
  have K: "0 < ?K" by simp
  have "pow2 ?j * pow2 (- ?j) = pow2 0" using pow2_add [of ?j "- ?j"] by simp
  moreover have "pow2 (- ?j) = of_int ?K" using j by (simp add: pow2_nonneg_exp)
  moreover have "pow2 0 = 1" by (simp add: pow2_def)
  ultimately have u: "pow2 ?j * of_int ?K = 1" by simp
  then have inv: "pow2 ?j = 1 / of_int ?K" using K by (simp add: field_simps)
  have "round_f64 x = of_int (round_even (x / pow2 ?j)) * pow2 ?j"
    using assms(1) by (simp add: round_f64_def Let_def)
  also have "\<dots> = of_int (round_even (x * of_int ?K)) / of_int ?K" unfolding inv by simp
  finally show ?thesis using K by blast
qed


lemma round_f64_of_int:
  assumes "0 \<le> k" "k < 2 ^ 53"
  shows "round_f64 (of_int k) = of_int k"
proof (cases "k = 0")
  case True
  then show ?thesis by (simp add: round_f64_def)
next
  case False
  with assms have pos: "(0::rat) < of_int k" and lt: "(of_int k :: rat) < 2 ^ 53" by simp_all
  from round_f64_scale [OF pos lt] obtain K :: int where K: "0 < K"
    and r: "round_f64 (of_int k) = of_int (round_even (of_int k * of_int K)) / of_int K" by blast
  have "round_even (of_int k * of_int K) = k * K"
    using round_even_of_int [of "k * K"] by simp
  with r K show ?thesis by simp
qed


lemma target_count_exact:
  assumes "0 \<le> size'" "size' < 2 ^ 53" "0 \<le> density" "density < 1"
    and "of_int size' * density = of_int k"
  shows "target_count size' density = k"
proof -
  have ex: "round_f64 (of_int size') = of_int size'" using assms(1,2) by (rule round_f64_of_int)
  have k0: "0 \<le> k"
  proof -
    have "(0::rat) \<le> of_int size' * density" using assms(1,3) by simp
    then show ?thesis unfolding assms(5) by simp
  qed
  have "of_int size' * density \<le> (of_int size' :: rat)" using assms(1,3,4) by (simp add: mult_left_le)
  then have "k \<le> size'" unfolding assms(5) by simp
  with assms(2) have "k < 2 ^ 53" by simp
  from round_f64_of_int [OF k0 this] have "round_f64 (of_int k) = (of_int k :: rat)" .
  then show ?thesis using k0 by (simp add: target_count_def ex assms(5) trunc_zero_def)
qed

lemma cell_coo:
  assumes "coo_wf m" "0 \<le> k" "k < prod_list (coo_shape m)"
  shows "\<exists>c. flatToNd (coo_shape m) k = Inr c \<and> coo_Item m c = Inr (coo_read m k) \<and>
           cell (CooM m) k = Inr (coo_read m k)"
proof -
  from assms(2,3) obtain c where f: "flatToNd (coo_shape m) k = Inr c"
    by (simp add: flatToNd_def)
  from coo_Item_entry [OF assms(1) f] have "coo_Item m c = Inr (coo_read m k)"
    by (simp add: coo_read_def)
  with f show ?thesis by (simp add: cell_def)
qed


lemma finite_nonzero_cells: "finite (nonzero_cells m)"
  by (simp add: nonzero_cells_def)

text \<open>
  One placement: the matrix \<open>m'\<close> is \<open>m\<close> with the value \<open>v\<close> stored at the flat index
  \<open>k0\<close>, a cell that read zero in \<open>m\<close>.
\<close>

definition placed :: "sparseCooF64Matrix \<Rightarrow> int \<Rightarrow> float64 \<Rightarrow> sparseCooF64Matrix \<Rightarrow> bool" where
  "placed m k0 v m' =
     (0 \<le> k0 \<and> k0 < prod_list (coo_shape m) \<and> coo_read m k0 = Finite 0 \<and>
      coo_wf m' \<and> coo_shape m' = coo_shape m \<and>
      (\<forall>k. 0 \<le> k \<and> k < prod_list (coo_shape m) \<longrightarrow>
           coo_entry_at m' k = (if k = k0 then Some v else coo_entry_at m k)))"

lemma place_one_hit:
  assumes wf: "coo_wf m" and sz: "size' = prod_list (coo_shape m)" and pos: "0 < size'"
    and zero: "coo_read m (int r mod size') = Finite 0"
  shows "\<exists>m1. place_one (coo_shape m) size' (r # rs) (v # vs) m = Some (Inr (rs, vs, m1)) \<and>
           placed m (int r mod size') v m1"
proof -
  let ?k = "int r mod size'"
  have k: "0 \<le> ?k" "?k < prod_list (coo_shape m)" using pos sz by simp_all
  from cell_coo [OF wf k] obtain c where f: "flatToNd (coo_shape m) ?k = Inr c"
    and it: "coo_Item m c = Inr (coo_read m ?k)" by blast
  from coo_ItemSet_at [OF wf f, of v] obtain m1 where s: "coo_ItemSet m v c = Inr m1"
    and wf1: "coo_wf m1" and sh1: "coo_shape m1 = coo_shape m"
    and ent: "\<forall>k. 0 \<le> k \<and> k < prod_list (coo_shape m) \<longrightarrow>
                coo_entry_at m1 k = (if k = ?k then Some v else coo_entry_at m k)"
    by blast
  have "place_one (coo_shape m) size' (r # rs) (v # vs) m = Some (Inr (rs, vs, m1))"
    using pos f it zero s by simp
  moreover have "placed m ?k v m1" using k zero wf1 sh1 ent by (simp add: placed_def)
  ultimately show ?thesis by blast
qed

lemma place_one_dry:
  assumes wf: "coo_wf m" and sz: "size' = prod_list (coo_shape m)" and pos: "0 < size'"
    and zero: "coo_read m (int r mod size') = Finite 0"
  shows "place_one (coo_shape m) size' (r # rs) [] m = None"
proof -
  let ?k = "int r mod size'"
  have k: "0 \<le> ?k" "?k < prod_list (coo_shape m)" using pos sz by simp_all
  from cell_coo [OF wf k] obtain c where f: "flatToNd (coo_shape m) ?k = Inr c"
    and it: "coo_Item m c = Inr (coo_read m ?k)" by blast
  show ?thesis using pos f it zero by simp
qed

lemma place_one_miss:
  assumes wf: "coo_wf m" and sz: "size' = prod_list (coo_shape m)" and pos: "0 < size'"
    and nz: "coo_read m (int r mod size') \<noteq> Finite 0"
  shows "place_one (coo_shape m) size' (r # rs) vs m = place_one (coo_shape m) size' rs vs m"
proof -
  let ?k = "int r mod size'"
  have k: "0 \<le> ?k" "?k < prod_list (coo_shape m)" using pos sz by simp_all
  from cell_coo [OF wf k] obtain c where f: "flatToNd (coo_shape m) ?k = Inr c"
    and it: "coo_Item m c = Inr (coo_read m ?k)" by blast
  show ?thesis using pos f it nz by simp
qed

lemma place_one_spec:
  assumes wf: "coo_wf m" and sz: "size' = prod_list (coo_shape m)" and pos: "0 < size'"
  shows "place_one (coo_shape m) size' rs vs m = None \<or>
         (\<exists>k0 v vs' rs' m'. place_one (coo_shape m) size' rs vs m = Some (Inr (rs', vs', m')) \<and>
            vs = v # vs' \<and> placed m k0 v m')"
proof (induction rs)
  case Nil
  show ?case using pos by simp
next
  case (Cons r rs)
  show ?case
  proof (cases "coo_read m (int r mod size') = Finite 0")
    case True
    show ?thesis
    proof (cases vs)
      case Nil
      with place_one_dry [OF wf sz pos True] show ?thesis by simp
    next
      case (Cons v vs')
      from place_one_hit [OF wf sz pos True, of rs v vs'] Cons show ?thesis by blast
    qed
  next
    case False
    from place_one_miss [OF wf sz pos False] Cons.IH show ?thesis by simp
  qed
qed

lemma placed_read:
  assumes "placed m k0 v m'" "k < nat (prod_list (coo_shape m))"
  shows "coo_read m' (int k) = (if int k = k0 then v else coo_read m (int k))"
proof -
  from assms(2) have "0 \<le> int k \<and> int k < prod_list (coo_shape m)" by simp
  with assms(1) have "coo_entry_at m' (int k) = (if int k = k0 then Some v else coo_entry_at m (int k))"
    unfolding placed_def by blast
  then show ?thesis by (simp add: coo_read_def)
qed

lemma placed_nonzero_cells:
  assumes p: "placed m k0 v m'"
  shows "nat k0 \<notin> nonzero_cells m \<and>
         nonzero_cells m' =
           (if v \<noteq> Finite 0 then insert (nat k0) (nonzero_cells m) else nonzero_cells m)"
proof -
  from p have k0: "0 \<le> k0" "k0 < prod_list (coo_shape m)" and z: "coo_read m k0 = Finite 0"
    and sh: "coo_shape m' = coo_shape m" by (simp_all add: placed_def)
  have notin: "nat k0 \<notin> nonzero_cells m" using k0 z by (simp add: nonzero_cells_def)
  have lt: "nat k0 < nat (prod_list (coo_shape m))" using k0 by simp
  have "k \<in> nonzero_cells m' \<longleftrightarrow>
          k \<in> (if v \<noteq> Finite 0 then insert (nat k0) (nonzero_cells m) else nonzero_cells m)" for k
  proof (cases "k < nat (prod_list (coo_shape m))")
    case True
    have eq: "int k = k0 \<longleftrightarrow> k = nat k0" using k0 by auto
    from placed_read [OF p True] eq True z show ?thesis
      by (auto simp: nonzero_cells_def sh)
  next
    case False
    then show ?thesis using lt by (auto simp: nonzero_cells_def sh)
  qed
  with notin show ?thesis by blast
qed

lemma placed_card:
  assumes "placed m k0 v m'"
  shows "card (nonzero_cells m') = card (nonzero_cells m) + (if v \<noteq> Finite 0 then 1 else 0)"
  using placed_nonzero_cells [OF assms] finite_nonzero_cells [of m] by simp

lemma populate_spec:
  assumes "coo_wf m" "size' = prod_list (coo_shape m)" "n = 0 \<or> 0 < size'"
    and "populate (coo_shape m) size' n rs vs m = Some res"
  shows "\<exists>m'. res = Inr m' \<and> coo_wf m' \<and> coo_shape m' = coo_shape m \<and> n \<le> length vs \<and>
           card (nonzero_cells m') \<le> card (nonzero_cells m) + n \<and>
           ((\<forall>v \<in> set (take n vs). v \<noteq> Finite 0) \<longrightarrow>
              card (nonzero_cells m') = card (nonzero_cells m) + n) \<and>
           (\<forall>k v. 0 \<le> k \<and> k < size' \<and> coo_entry_at m' k = Some v \<longrightarrow>
              coo_entry_at m k = Some v \<or> v \<in> set (take n vs))"
  using assms
proof (induction n arbitrary: rs vs m)
  case 0
  then show ?case by auto
next
  case (Suc n)
  from Suc.prems(3) have pos: "0 < size'" by simp
  from place_one_spec [OF Suc.prems(1,2) pos, of rs vs] Suc.prems(4)
  obtain k0 v vs' rs' m1
    where p1: "place_one (coo_shape m) size' rs vs m = Some (Inr (rs', vs', m1))"
      and vs: "vs = v # vs'" and pl: "placed m k0 v m1"
    by (cases "place_one (coo_shape m) size' rs vs m") auto
  from pl have wf1: "coo_wf m1" and sh1: "coo_shape m1 = coo_shape m"
    and ent1: "\<forall>k. 0 \<le> k \<and> k < prod_list (coo_shape m) \<longrightarrow>
                 coo_entry_at m1 k = (if k = k0 then Some v else coo_entry_at m k)"
    by (simp_all add: placed_def)
  have sz1: "size' = prod_list (coo_shape m1)" using Suc.prems(2) sh1 by simp
  have rest: "populate (coo_shape m1) size' n rs' vs' m1 = Some res"
    using Suc.prems(4) p1 sh1 by simp
  have "n = 0 \<or> 0 < size'" using pos by simp
  from Suc.IH [OF wf1 sz1 this rest]
  obtain m' where r: "res = Inr m'" and wf': "coo_wf m'" and sh': "coo_shape m' = coo_shape m1"
    and len: "n \<le> length vs'"
    and le: "card (nonzero_cells m') \<le> card (nonzero_cells m1) + n"
    and eq: "(\<forall>v \<in> set (take n vs'). v \<noteq> Finite 0) \<longrightarrow>
               card (nonzero_cells m') = card (nonzero_cells m1) + n"
    and ent: "\<forall>k v. 0 \<le> k \<and> k < size' \<and> coo_entry_at m' k = Some v \<longrightarrow>
               coo_entry_at m1 k = Some v \<or> v \<in> set (take n vs')"
    by blast
  from placed_card [OF pl]
  have c1: "card (nonzero_cells m1) = card (nonzero_cells m) + (if v \<noteq> Finite 0 then 1 else 0)" .
  have "card (nonzero_cells m1) \<le> card (nonzero_cells m) + 1" using c1 by (simp split: if_splits)
  with le have le': "card (nonzero_cells m') \<le> card (nonzero_cells m) + Suc n" by linarith
  have eq': "(\<forall>x \<in> set (take (Suc n) vs). x \<noteq> Finite 0) \<longrightarrow>
               card (nonzero_cells m') = card (nonzero_cells m) + Suc n"
    using eq c1 vs by simp
  have ent': "coo_entry_at m k = Some x \<or> x \<in> set (take (Suc n) vs)"
    if h: "0 \<le> k \<and> k < size' \<and> coo_entry_at m' k = Some x" for k x
  proof -
    from ent h have "coo_entry_at m1 k = Some x \<or> x \<in> set (take n vs')" by blast
    moreover from ent1 h Suc.prems(2)
    have "coo_entry_at m1 k = (if k = k0 then Some v else coo_entry_at m k)" by simp
    ultimately show ?thesis using vs by (auto split: if_splits)
  qed
  from r wf' sh' sh1 len vs le' eq' ent' show ?case by auto
qed


lemma populate_panics:
  "populate shape size' n rs vs m = Some (Inl e) \<Longrightarrow> e = PanicIndex \<or> e = PanicIntn"
proof (induction n arbitrary: rs vs m)
  case 0
  then show ?case by simp
next
  case (Suc n)
  have one: "place_one shape size' rs vs m = Some (Inl e') \<Longrightarrow> e' = PanicIndex \<or> e' = PanicIntn"
    for e' rs vs
  proof (induction rs)
    case Nil
    then show ?case by (simp split: if_splits)
  next
    case (Cons r rs)
    then show ?case
      by (auto simp: flatToNd_def coo_Item_def coo_ItemSet_def
          split: if_splits sum.splits list.splits)
  qed
  show ?case
  proof (cases "place_one shape size' rs vs m")
    case None
    with Suc.prems show ?thesis by simp
  next
    case (Some res)
    show ?thesis
    proof (cases res)
      case (Inl e')
      with Some Suc.prems have "e' = e" by simp
      with one [of rs vs e'] Some Inl show ?thesis by simp
    next
      case (Inr t)
      obtain rs' vs' m1 where t: "t = (rs', vs', m1)" by (cases t) auto
      with Some Inr Suc.prems have "populate shape size' n rs' vs' m1 = Some (Inl e)" by simp
      then show ?thesis by (rule Suc.IH)
    qed
  qed
qed

text \<open>
  The two functions differ only in the tape their values come from: both are the density
  check, the empty matrix and the population loops.
\<close>

definition sample :: "int \<Rightarrow> int \<Rightarrow> rat \<Rightarrow> nat list \<Rightarrow> float64 list \<Rightarrow> (panic + Matrix) option" where
  "sample rows cols density rs vs =
     (if density < 0 \<or> density \<ge> 1 then Some (Inl PanicDensity)
      else
        (case SparseCoo rows cols [] of
           Inl e \<Rightarrow> Some (Inl e)
         | Inr matrix \<Rightarrow>
             (case populate [rows, cols] (go_int (rows * cols))
                     (nat (target_count (go_int (rows * cols)) density)) rs vs matrix of
                None \<Rightarrow> None
              | Some (Inl e) \<Rightarrow> Some (Inl e)
              | Some (Inr m) \<Rightarrow> Some (Inr (CooM m)))))"

lemma SparseRand_sample:
  "SparseRand rows cols density g = sample rows cols density (intn_draws g) (float64_draws g)"
  by (simp add: SparseRand_def sample_def Let_def split: sum.splits)

lemma SparseRandN_sample:
  "SparseRandN rows cols density g = sample rows cols density (intn_draws g) (norm_draws g)"
  by (simp add: SparseRandN_def sample_def Let_def split: sum.splits)

lemma sample_out_of_range:
  "density < 0 \<or> 1 \<le> density \<Longrightarrow> sample rows cols density rs vs = Some (Inl PanicDensity)"
  by (simp add: sample_def)

lemma sample_in_range_panic:
  assumes "0 \<le> density" "density < 1" "sample rows cols density rs vs = Some (Inl e)"
  shows "e = PanicMakeLen \<or> e = PanicIndex \<or> e = PanicIntn"
proof (cases "SparseCoo rows cols []")
  case (Inl e')
  then have "e' = PanicMakeLen"
    by (auto simp: SparseCoo_def make_slice_def split: if_splits)
  with Inl assms show ?thesis by (simp add: sample_def not_less [symmetric])
next
  case (Inr matrix)
  let ?p = "populate [rows, cols] (go_int (rows * cols))
              (nat (target_count (go_int (rows * cols)) density)) rs vs matrix"
  from assms Inr have "?p = Some (Inl e)"
    by (auto simp: sample_def not_less [symmetric] split: option.splits sum.splits)
  from populate_panics [OF this] show ?thesis by simp
qed

lemma sample_valid:
  assumes "0 \<le> rows" "0 \<le> cols" "rows * cols < 2 ^ 63" "0 \<le> density" "density < 1"
  shows "\<exists>m0. coo_wf m0 \<and> coo_shape m0 = [rows, cols] \<and> nonzero_cells m0 = {} \<and>
           (\<forall>k. coo_entry_at m0 k = None) \<and>
           (nat (target_count (rows * cols) density) = 0 \<or> 0 < rows * cols) \<and>
           sample rows cols density rs vs =
             (case populate (coo_shape m0) (prod_list (coo_shape m0))
                     (nat (target_count (rows * cols) density)) rs vs m0 of
                None \<Rightarrow> None
              | Some (Inl e) \<Rightarrow> Some (Inl e)
              | Some (Inr m) \<Rightarrow> Some (Inr (CooM m)))"
proof -
  let ?m0 = "\<lparr>coo_shape = [rows, cols], coo_values = replicate (nat rows) Map.empty\<rparr>"
  have wf0: "coo_wf ?m0" using assms(1,2) by (rule coo_empty_wf)
  have e0: "coo_entry_at ?m0 k = None" for k using assms(1,2) by (rule coo_empty_entry_at)
  then have nz: "nonzero_cells ?m0 = {}" by (simp add: nonzero_cells_def coo_read_def)
  have "0 \<le> rows * cols" using assms(1,2) by simp
  then have g: "go_int (rows * cols) = rows * cols" using assms(3) by (simp add: go_int_id)
  have c: "SparseCoo rows cols [] = Inr ?m0" using SparseCoo_unfold [OF assms(1)] by simp
  have pos: "nat (target_count (rows * cols) density) = 0 \<or> 0 < rows * cols"
  proof (cases "0 < target_count (rows * cols) density")
    case True
    with target_count_pos_size [OF assms(4) True] show ?thesis by simp
  next
    case False
    then show ?thesis by simp
  qed
  have "sample rows cols density rs vs =
             (case populate (coo_shape ?m0) (prod_list (coo_shape ?m0))
                     (nat (target_count (rows * cols) density)) rs vs ?m0 of
                None \<Rightarrow> None
              | Some (Inl e) \<Rightarrow> Some (Inl e)
              | Some (Inr m) \<Rightarrow> Some (Inr (CooM m)))"
    using assms(4,5) c g by (simp add: sample_def not_less [symmetric])
  with wf0 e0 nz pos show ?thesis by (intro exI [of _ ?m0]) simp
qed

lemma sample_no_panic:
  assumes "0 \<le> rows" "0 \<le> cols" "rows * cols < 2 ^ 63" "0 \<le> density" "density < 1"
  shows "sample rows cols density rs vs \<noteq> Some (Inl e)"
proof
  assume a: "sample rows cols density rs vs = Some (Inl e)"
  from sample_valid [OF assms, of rs vs] obtain m0 where wf0: "coo_wf m0"
    and pos: "nat (target_count (rows * cols) density) = 0 \<or> 0 < prod_list (coo_shape m0)"
    and s: "sample rows cols density rs vs =
             (case populate (coo_shape m0) (prod_list (coo_shape m0))
                     (nat (target_count (rows * cols) density)) rs vs m0 of
                None \<Rightarrow> None
              | Some (Inl e) \<Rightarrow> Some (Inl e)
              | Some (Inr m) \<Rightarrow> Some (Inr (CooM m)))"
    by auto
  from a s obtain res where p: "populate (coo_shape m0) (prod_list (coo_shape m0))
                     (nat (target_count (rows * cols) density)) rs vs m0 = Some res"
    and l: "isl res"
    by (auto split: option.splits sum.splits)
  from populate_spec [OF wf0 refl pos p] l show False by auto
qed

text \<open>
  C6. \<open>SparseRand(rows, cols, density)\<close> and \<open>SparseRandN(rows, cols, density)\<close> fail
  with the density panic if and only if \<open>density < 0\<close> or \<open>density \<ge> 1\<close>: for every
  density in \<open>[0, 1)\<close> no fatal failure occurs at the precondition check. For a valid
  shape whose cell count fits Go's \<^verbatim>\<open>int\<close>, they fail fatally in any way if and only if
  the density is outside \<open>[0, 1)\<close>.
\<close>

theorem SparseRand_density_precondition:
  "(SparseRand rows cols density g = Some (Inl PanicDensity) \<longleftrightarrow> density < 0 \<or> 1 \<le> density) \<and>
   (SparseRandN rows cols density g = Some (Inl PanicDensity) \<longleftrightarrow> density < 0 \<or> 1 \<le> density) \<and>
   (0 \<le> rows \<and> 0 \<le> cols \<and> rows * cols < 2 ^ 63 \<longrightarrow>
      ((\<exists>e. SparseRand rows cols density g = Some (Inl e)) \<longleftrightarrow> density < 0 \<or> 1 \<le> density) \<and>
      ((\<exists>e. SparseRandN rows cols density g = Some (Inl e)) \<longleftrightarrow> density < 0 \<or> 1 \<le> density))"
proof -
  have check: "sample rows cols density rs vs = Some (Inl PanicDensity) \<longleftrightarrow>
                 density < 0 \<or> 1 \<le> density" for rs vs
  proof (cases "density < 0 \<or> 1 \<le> density")
    case True
    with sample_out_of_range [OF True] show ?thesis by simp
  next
    case False
    then have r: "0 \<le> density" "density < 1" by simp_all
    from sample_in_range_panic [OF r, of rows cols rs vs PanicDensity] False show ?thesis by auto
  qed
  have any: "(\<exists>e. sample rows cols density rs vs = Some (Inl e)) \<longleftrightarrow>
               density < 0 \<or> 1 \<le> density"
    if v: "0 \<le> rows \<and> 0 \<le> cols \<and> rows * cols < 2 ^ 63" for rs vs
  proof (cases "density < 0 \<or> 1 \<le> density")
    case True
    with sample_out_of_range [OF True] show ?thesis by simp
  next
    case False
    then have r: "0 \<le> density" "density < 1" by simp_all
    from v have "0 \<le> rows" "0 \<le> cols" "rows * cols < 2 ^ 63" by simp_all
    from sample_no_panic [OF this r] False show ?thesis by simp
  qed
  show ?thesis unfolding SparseRand_sample SparseRandN_sample using check any by blast
qed

theorem SparseRand_density_precondition_witness:
  "SparseRand 2 2 (3 / 2) \<lparr>intn_draws = [], float64_draws = [], norm_draws = []\<rparr> =
     Some (Inl PanicDensity) \<and>
   SparseRandN 2 2 (- 1) \<lparr>intn_draws = [], float64_draws = [], norm_draws = []\<rparr> =
     Some (Inl PanicDensity) \<and>
   SparseRand 2 2 0 \<lparr>intn_draws = [], float64_draws = [], norm_draws = []\<rparr> \<noteq>
     Some (Inl PanicDensity) \<and>
   SparseRandN 2 2 (1 / 2) \<lparr>intn_draws = [], float64_draws = [], norm_draws = []\<rparr> \<noteq>
     Some (Inl PanicIntn)"
proof -
  let ?g = "\<lparr>intn_draws = [], float64_draws = [], norm_draws = []\<rparr>"
  have 1: "SparseRand 2 2 (3 / 2) ?g = Some (Inl PanicDensity)"
    using SparseRand_density_precondition [of 2 2 "3 / 2" ?g] by simp
  have 2: "SparseRandN 2 2 (- 1) ?g = Some (Inl PanicDensity)"
    using SparseRand_density_precondition [of 2 2 "- 1" ?g] by simp
  have 3: "SparseRand 2 2 0 ?g \<noteq> Some (Inl PanicDensity)"
    using SparseRand_density_precondition [of 2 2 0 ?g] by simp
  have "\<not> (\<exists>e. SparseRandN 2 2 (1 / 2) ?g = Some (Inl e))"
    using SparseRand_density_precondition [of 2 2 "1 / 2" ?g] by simp
  then have 4: "SparseRandN 2 2 (1 / 2) ?g \<noteq> Some (Inl PanicIntn)" by blast
  from 1 2 3 4 show ?thesis by blast
qed







text \<open>
  The float64 product is rounded before it is truncated: with the float64 nearest to 0.7
  as density and 10 cells, the exact product is below 7 and the target count is 7.
\<close>

lemma target_count_rounds_up:
  "target_count 10 (6305039478318694 / 9007199254740992) = 7 \<and>
   \<lfloor>10 * (6305039478318694 / 9007199254740992 :: rat)\<rfloor> = 6"
  by code_simp






end
